theory Spec2Isabelle
  imports Main "HOL-Library.Word"
begin

section \<open>The streaming session coordinator of the translation server\<close>

text \<open>
  The server keeps one \<open>sessionData\<close> object per WebSocket connection. Its handlers
  (\<open>ws.on('message')\<close>, \<open>ws.on('close')\<close>, the debounce timer's callback and
  \<open>processAudioStream\<close>) run on Node's single-threaded event loop: a handler runs
  until it returns or reaches an \<open>await\<close> on a Gateway call (the two Mistral
  requests), and then other handlers may run before the Gateway answers.

  The embedding makes that explicit. A \<open>server\<close> value holds the session object,
  the runtime's pending timeouts, the suspended \<open>processAudioStream\<close> frames, and
  the two observable logs (what was sent on the socket, which Gateway calls were made).
  An \<open>event\<close> is one turn of the event loop: the environment's move, the handlers
  it starts, each up to its next suspension, and then the microtasks that have become
  ready. \<open>await processAudioStream(...)\<close> always yields: when the call has returned
  without suspending, the rest of the caller is queued as a microtask. After a timer
  callback or a Gateway answer it runs next. The socket, however, may deliver several
  messages in one turn, and then the handlers of all of them run before the queued
  rest of any of them does. \<open>ws.send\<close> is taken not to throw. Message fields are
  absent (\<open>None\<close>) or strings; audio arrives already decoded from base64.
\<close>

subsection \<open>Data\<close>

type_synonym buffer = "8 word list"

record sessionData =
  audioChunks :: "buffer list"
  lastTranscript :: string
  lastTranslation :: string
  isProcessing :: bool
  sourceLanguage :: string
  targetLanguage :: string
  processingTimer :: "nat option"

datatype message =
    Audio "buffer option" "string option" "string option"
  | Config "string option" "string option"
  | Stop "buffer option" "string option" "string option"
  | Clear
  | OtherType
  | Unparseable

datatype out_event =
    Connected string
  | Transcription string string bool
  | ErrorEvent string

datatype gateway_call =
    TranscriptionsComplete string string buffer string
  | ChatComplete string "(string \<times> string) list"

text \<open>
  A suspended \<open>processAudioStream\<close> frame: its parameter \<open>isFinal\<close>, its local
  \<open>combinedAudio\<close>, where it waits (with the local \<open>newText\<close> once it exists), and
  which of the two call sites awaits it.
\<close>

datatype phase = AwaitTranscribe | AwaitTranslate string

datatype caller = StopHandler | TimerCallback

record invocation =
  isFinal :: bool
  combinedAudio :: buffer
  waiting :: phase
  awaitedBy :: caller

text \<open>
  The state of one connection: the closure variables \<open>sessionId\<close> and
  \<open>sessionData\<close>; whether the \<open>sessions\<close> map holds the id; whether the socket
  is open; the timeouts pending in the runtime and the next handle \<open>setTimeout\<close>
  returns; the parked \<open>processAudioStream\<close> frames, each under the number of its
  Gateway request, and the next such number; the callers whose awaited call has
  returned and whose rest is queued as a microtask; everything \<open>ws.send\<close> has sent;
  every request made to the Gateway.
\<close>

record server =
  sessionId :: string
  sessionData :: sessionData
  registered :: bool
  wsOpen :: bool
  timers :: "nat list"
  nextTimer :: nat
  tasks :: "(nat \<times> invocation) list"
  nextTask :: nat
  deferred :: "caller list"
  sent :: "out_event list"
  calls :: "gateway_call list"

text \<open>
  What the environment does in one turn: a message arrives on the socket, or several
  arrive together and are dispatched one after the other; a pending timeout fires;
  the Gateway resolves or rejects an outstanding request; the socket closes. A
  transcription resolves with its \<open>text\<close>, a chat request with the content of its
  first choice; either may be absent.
\<close>

datatype event =
    Message message
  | Messages "message list"
  | TimerFires nat
  | TranscribeReturns nat "string option"
  | TranscribeThrows nat
  | TranslateReturns nat "string option"
  | TranslateThrows nat
  | Close

subsection \<open>Helpers of the language and the runtime\<close>

text \<open>JavaScript's \<open>v || d\<close> on a value that is absent or a string.\<close>

definition orElse :: "string option \<Rightarrow> string \<Rightarrow> string" where
  "orElse v d = (case v of None \<Rightarrow> d | Some x \<Rightarrow> if x = [] then d else x)"

text \<open>A template literal renders an absent value as \<open>undefined\<close>.\<close>

definition render :: "string option \<Rightarrow> string" where
  "render v = (case v of None \<Rightarrow> ''undefined'' | Some x \<Rightarrow> x)"

definition systemPrompt :: "string \<Rightarrow> string \<Rightarrow> string" where
  "systemPrompt src tgt =
     ''You are a professional translator. Translate the following text from '' @ src @
     '' to '' @ tgt @ ''. Only return the translated text, no explanations.''"

definition chatRequest :: "string \<Rightarrow> string \<Rightarrow> string \<Rightarrow> gateway_call" where
  "chatRequest src tgt content =
     ChatComplete ''mistral-large-latest''
       [(''system'', systemPrompt src tgt), (''user'', content)]"

definition setTimeout :: "server \<Rightarrow> nat \<times> server" where
  "setTimeout s =
     (nextTimer s, s\<lparr>timers := timers s @ [nextTimer s], nextTimer := Suc (nextTimer s)\<rparr>)"

definition clearTimeout :: "nat \<Rightarrow> server \<Rightarrow> server" where
  "clearTimeout t s = s\<lparr>timers := removeAll t (timers s)\<rparr>"

subsection \<open>The connection handler's set-up\<close>

definition connection :: "string \<Rightarrow> server" where
  "connection sid =
     \<lparr>sessionId = sid,
      sessionData =
        \<lparr>audioChunks = [], lastTranscript = [], lastTranslation = [],
         isProcessing = False, sourceLanguage = ''zh'', targetLanguage = ''en'',
         processingTimer = None\<rparr>,
      registered = True, wsOpen = True,
      timers = [], nextTimer = 0, tasks = [], nextTask = 0, deferred = [],
      sent = [Connected sid], calls = []\<rparr>"

subsection \<open>scheduleProcessing and the two callers' continuations\<close>

definition scheduleProcessing :: "server \<Rightarrow> server" where
  "scheduleProcessing s =
     (if processingTimer (sessionData s) \<noteq> None then s
      else (case setTimeout s of (t, s') \<Rightarrow>
              s'\<lparr>sessionData := (sessionData s')\<lparr>processingTimer := Some t\<rparr>\<rparr>))"

text \<open>
  What runs once \<open>await processAudioStream(...)\<close> resolves: lines 67 to 69 in the
  stop branch, lines 108 to 110 in the timer's callback.
\<close>

fun resume :: "caller \<Rightarrow> server \<Rightarrow> server" where
  "resume StopHandler s =
     s\<lparr>sessionData := (sessionData s)
        \<lparr>audioChunks := [], lastTranscript := [], lastTranslation := []\<rparr>\<rparr>"
| "resume TimerCallback s =
     (if audioChunks (sessionData s) \<noteq> [] then scheduleProcessing s else s)"

subsection \<open>processAudioStream\<close>

datatype completion = Returned | Suspended

text \<open>
  From the entry to the first \<open>await\<close>. The guard and the minimum-size test return
  at once; otherwise the transcription request is issued and the frame is parked.
\<close>

definition processAudioStream :: "bool \<Rightarrow> caller \<Rightarrow> server \<Rightarrow> completion \<times> server" where
  "processAudioStream final k s =
     (let d = sessionData s in
      if isProcessing d \<or> audioChunks d = [] then (Returned, s)
      else
        let combined = concat (audioChunks d);
            minAudioSize = (if final then 0 else 4000 :: nat)
        in
          if length combined < minAudioSize \<and> \<not> final
          then (Returned, s\<lparr>sessionData := d\<lparr>isProcessing := False\<rparr>\<rparr>)
          else
            (Suspended,
             s\<lparr>sessionData := d\<lparr>isProcessing := True\<rparr>,
               calls := calls s @
                 [TranscriptionsComplete ''voxtral-mini-latest'' ''audio.webm''
                    combined (sourceLanguage d)],
               tasks := tasks s @
                 [(nextTask s,
                   \<lparr>isFinal = final, combinedAudio = combined,
                    waiting = AwaitTranscribe, awaitedBy = k\<rparr>)],
               nextTask := Suc (nextTask s)\<rparr>))"

text \<open>
  The caller's side of \<open>await processAudioStream(...)\<close>: the caller yields in either
  case. Once the call has returned, the rest of the caller is queued as a microtask;
  while the call is suspended, so is the caller.
\<close>

fun awaitResult :: "caller \<Rightarrow> completion \<times> server \<Rightarrow> server" where
  "awaitResult k (Returned, s) = s\<lparr>deferred := deferred s @ [k]\<rparr>"
| "awaitResult k (Suspended, s) = s"

text \<open>The queued microtasks run in order, at the end of the turn.\<close>

fun resumeAll :: "caller list \<Rightarrow> server \<Rightarrow> server" where
  "resumeAll [] s = s"
| "resumeAll (k # ks) s = resumeAll ks (resume k s)"

definition runMicrotasks :: "server \<Rightarrow> server" where
  "runMicrotasks s = resumeAll (deferred s) (s\<lparr>deferred := []\<rparr>)"

text \<open>
  Lines 171 to 175, the \<open>catch\<close> block and the \<open>finally\<close> block; leaving
  through \<open>finally\<close> ends the frame.
\<close>

definition finalReset :: "invocation \<Rightarrow> server \<Rightarrow> server" where
  "finalReset v s =
     (if isFinal v
      then s\<lparr>sessionData := (sessionData s)
             \<lparr>audioChunks := [], lastTranscript := [], lastTranslation := []\<rparr>\<rparr>
      else s)"

definition catchBlock :: "server \<Rightarrow> server" where
  "catchBlock s = s\<lparr>sent := sent s @ [ErrorEvent ''Transcription failed'']\<rparr>"

definition finallyBlock :: "nat \<Rightarrow> server \<Rightarrow> server" where
  "finallyBlock tid s =
     s\<lparr>sessionData := (sessionData s)\<lparr>isProcessing := False\<rparr>,
       tasks := filter (\<lambda>p. fst p \<noteq> tid) (tasks s)\<rparr>"

text \<open>After the transcription request resolves: lines 141 to 158.\<close>

definition afterTranscribe ::
  "nat \<Rightarrow> invocation \<Rightarrow> string option \<Rightarrow> server \<Rightarrow> completion \<times> server" where
  "afterTranscribe tid v response s =
     (let d = sessionData s; newText = orElse response [] in
      if newText \<noteq> [] \<and> newText \<noteq> lastTranscript d
      then
        (Suspended,
         s\<lparr>sessionData := d\<lparr>lastTranscript := newText\<rparr>,
           calls := calls s @
             [chatRequest (sourceLanguage d) (targetLanguage d) newText],
           tasks := map (\<lambda>p. if fst p = tid
                               then (tid, v\<lparr>waiting := AwaitTranslate newText\<rparr>)
                               else p) (tasks s)\<rparr>)
      else (Returned, finallyBlock tid (finalReset v s)))"

text \<open>After the chat request resolves: lines 160 to 175.\<close>

definition afterTranslate ::
  "nat \<Rightarrow> invocation \<Rightarrow> string \<Rightarrow> string option \<Rightarrow> server \<Rightarrow> completion \<times> server" where
  "afterTranslate tid v newText content s =
     (let translatedText = orElse content [];
          s1 = s\<lparr>sessionData := (sessionData s)\<lparr>lastTranslation := translatedText\<rparr>,
                 sent := sent s @ [Transcription newText translatedText (isFinal v)]\<rparr>
      in (Returned, finallyBlock tid (finalReset v s1)))"

text \<open>When either request rejects: lines 177 to 185.\<close>

definition afterThrow :: "nat \<Rightarrow> invocation \<Rightarrow> server \<Rightarrow> completion \<times> server" where
  "afterThrow tid v s = (Returned, finallyBlock tid (catchBlock s))"

subsection \<open>The message, timer and close handlers\<close>

definition cancelTimer :: "server \<Rightarrow> server" where
  "cancelTimer s =
     (case processingTimer (sessionData s) of
        None \<Rightarrow> s
      | Some t \<Rightarrow>
          (let s' = clearTimeout t s
           in s'\<lparr>sessionData := (sessionData s')\<lparr>processingTimer := None\<rparr>\<rparr>))"

fun onMessage :: "message \<Rightarrow> server \<Rightarrow> server" where
  "onMessage (Audio None src tgt) s = s"
| "onMessage (Audio (Some audioBuffer) src tgt) s =
     (let d = sessionData s;
          s1 = s\<lparr>sessionData := d
                 \<lparr>audioChunks := audioChunks d @ [audioBuffer],
                  sourceLanguage := orElse src ''zh'',
                  targetLanguage := orElse tgt ''en''\<rparr>\<rparr>
      in if \<not> isProcessing d then scheduleProcessing s1 else s1)"
| "onMessage (Config src tgt) s =
     s\<lparr>sessionData := (sessionData s)
        \<lparr>sourceLanguage := orElse src ''zh'', targetLanguage := orElse tgt ''en''\<rparr>\<rparr>"
| "onMessage (Stop audio src tgt) s =
     awaitResult StopHandler (processAudioStream True StopHandler (cancelTimer s))"
| "onMessage Clear s =
     cancelTimer
       (s\<lparr>sessionData := (sessionData s)
          \<lparr>audioChunks := [], lastTranscript := [], lastTranslation := [],
           isProcessing := False\<rparr>\<rparr>)"
| "onMessage OtherType s = s"
| "onMessage Unparseable s = s"

definition timerCallback :: "nat \<Rightarrow> server \<Rightarrow> server" where
  "timerCallback t s =
     (let s1 = clearTimeout t s;
          s2 = s1\<lparr>sessionData := (sessionData s1)\<lparr>processingTimer := None\<rparr>\<rparr>;
          d = sessionData s2
      in if audioChunks d \<noteq> [] \<and> \<not> isProcessing d
         then awaitResult TimerCallback (processAudioStream False TimerCallback s2)
         else s2)"

definition onClose :: "server \<Rightarrow> server" where
  "onClose s =
     (let s1 = (case processingTimer (sessionData s) of
                  None \<Rightarrow> s
                | Some t \<Rightarrow> clearTimeout t s)
      in s1\<lparr>registered := False, wsOpen := False\<rparr>)"

subsection \<open>The event loop\<close>

text \<open>Several messages delivered in one turn: their handlers run one after the other.\<close>

fun dispatch :: "message list \<Rightarrow> server \<Rightarrow> server" where
  "dispatch [] s = s"
| "dispatch (m # ms) s = dispatch ms (onMessage m s)"

text \<open>
  The handlers an event starts. An event that cannot occur in a state (a message on
  a closed socket, a timeout that is not pending, an answer to a request that is not
  outstanding) starts none.
\<close>

fun handle :: "event \<Rightarrow> server \<Rightarrow> server option" where
  "handle (Message m) s = (if wsOpen s then Some (onMessage m s) else None)"
| "handle (Messages ms) s = (if wsOpen s then Some (dispatch ms s) else None)"
| "handle (TimerFires t) s =
     (if t \<in> set (timers s) then Some (timerCallback t s) else None)"
| "handle (TranscribeReturns tid response) s =
     (case map_of (tasks s) tid of
        None \<Rightarrow> None
      | Some v \<Rightarrow>
          (case waiting v of
             AwaitTranscribe \<Rightarrow>
               Some (awaitResult (awaitedBy v) (afterTranscribe tid v response s))
           | AwaitTranslate newText \<Rightarrow> None))"
| "handle (TranscribeThrows tid) s =
     (case map_of (tasks s) tid of
        None \<Rightarrow> None
      | Some v \<Rightarrow>
          (case waiting v of
             AwaitTranscribe \<Rightarrow> Some (awaitResult (awaitedBy v) (afterThrow tid v s))
           | AwaitTranslate newText \<Rightarrow> None))"
| "handle (TranslateReturns tid content) s =
     (case map_of (tasks s) tid of
        None \<Rightarrow> None
      | Some v \<Rightarrow>
          (case waiting v of
             AwaitTranscribe \<Rightarrow> None
           | AwaitTranslate newText \<Rightarrow>
               Some (awaitResult (awaitedBy v) (afterTranslate tid v newText content s))))"
| "handle (TranslateThrows tid) s =
     (case map_of (tasks s) tid of
        None \<Rightarrow> None
      | Some v \<Rightarrow>
          (case waiting v of
             AwaitTranscribe \<Rightarrow> None
           | AwaitTranslate newText \<Rightarrow>
               Some (awaitResult (awaitedBy v) (afterThrow tid v s))))"
| "handle Close s = (if wsOpen s then Some (onClose s) else None)"

text \<open>
  One turn of the event loop: the event's handlers, then the queued microtasks. A
  turn begins only when no microtask is left from the turn before.
\<close>

definition step :: "event \<Rightarrow> server \<Rightarrow> server option" where
  "step e s = (if deferred s = [] then map_option runMicrotasks (handle e s) else None)"

fun run :: "event list \<Rightarrow> server \<Rightarrow> server option" where
  "run [] s = Some s"
| "run (e # es) s = (case step e s of None \<Rightarrow> None | Some s' \<Rightarrow> run es s')"

subsection \<open>The REST endpoint POST /api/translate\<close>

text \<open>
  The request body is the parsed JSON object; each of its three fields is absent or a
  string. The chat service is a parameter: it rejects, or resolves with the content of
  the first choice's message, which may be absent. The result is the HTTP status, the
  JSON body, and the requests made to the service.
\<close>

datatype chat_outcome = ChatRejects | ChatResolves "string option"

datatype json_body =
    ErrorBody string
  | TranslationBody string bool

definition postTranslate ::
  "(gateway_call \<Rightarrow> chat_outcome) \<Rightarrow> string option \<Rightarrow> string option \<Rightarrow> string option
     \<Rightarrow> (nat \<times> json_body) \<times> gateway_call list" where
  "postTranslate chat text sourceLang targetLang =
     (if orElse text [] = [] then ((400, ErrorBody ''Text required''), [])
      else
        let t = orElse text [];
            request = chatRequest (render sourceLang) (render targetLang) t
        in case chat request of
             ChatRejects \<Rightarrow> ((500, ErrorBody ''Translation failed''), [request])
           | ChatResolves content \<Rightarrow>
               ((200, TranslationBody (orElse content t) True), [request]))"

subsection \<open>Observations and invariants used below\<close>

text \<open>A buffer of \<open>n\<close> zero bytes, for concrete runs.\<close>

definition chunk :: "nat \<Rightarrow> buffer" where
  "chunk n = replicate n 0"

text \<open>A chat service that resolves with no message content.\<close>

definition silentChat :: "gateway_call \<Rightarrow> chat_outcome" where
  "silentChat request = ChatResolves None"

text \<open>The request whose answer an event delivers.\<close>

fun answered :: "event \<Rightarrow> nat option" where
  "answered (TranscribeReturns tid response) = Some tid"
| "answered (TranscribeThrows tid) = Some tid"
| "answered (TranslateReturns tid content) = Some tid"
| "answered (TranslateThrows tid) = Some tid"
| "answered (Message m) = None"
| "answered (Messages ms) = None"
| "answered (TimerFires t) = None"
| "answered Close = None"

text \<open>Shorthands for the session's fields in a server state.\<close>

definition buffered :: "server \<Rightarrow> buffer list" where
  "buffered s = audioChunks (sessionData s)"

definition inFlight :: "server \<Rightarrow> bool" where
  "inFlight s = isProcessing (sessionData s)"

definition lastEmitted :: "server \<Rightarrow> string \<times> string" where
  "lastEmitted s = (lastTranscript (sessionData s), lastTranslation (sessionData s))"

definition activeInvocations :: "server \<Rightarrow> nat" where
  "activeInvocations s = length (tasks s)"

text \<open>The transcription request of an invocation over the given chunks.\<close>

definition transcriptionRequest :: "buffer list \<Rightarrow> string \<Rightarrow> gateway_call" where
  "transcriptionRequest chunks language =
     TranscriptionsComplete ''voxtral-mini-latest'' ''audio.webm'' (concat chunks) language"

text \<open>
  Every pending timeout is the one \<open>processingTimer\<close> refers to.
\<close>

definition timerInv :: "server \<Rightarrow> bool" where
  "timerInv s =
     (timers s = [] \<or> (\<exists>t. processingTimer (sessionData s) = Some t \<and> timers s = [t]))"

text \<open>
  The state after three audio messages of 1000 bytes each on a fresh connection:
  3000 bytes are buffered and the debounce timer is armed.
\<close>

definition threeFragments :: server where
  "threeFragments =
     (connection ''a'')
       \<lparr>sessionData := (sessionData (connection ''a''))
          \<lparr>audioChunks := [chunk 1000, chunk 1000, chunk 1000],
           processingTimer := Some 0\<rparr>,
        timers := [0], nextTimer := 1\<rparr>"

text \<open>
  At most one frame is parked, and while one is the flag is set.
\<close>

definition flightInv :: "server \<Rightarrow> bool" where
  "flightInv s = (tasks s = [] \<or> (length (tasks s) = 1 \<and> isProcessing (sessionData s)))"

text \<open>
  Along the run of the events from the state, every clear message is handled while no
  invocation is in flight, also one among several messages of a turn.
\<close>

fun clearsIdle :: "message list \<Rightarrow> server \<Rightarrow> bool" where
  "clearsIdle [] s = True"
| "clearsIdle (m # ms) s = ((m = Clear \<longrightarrow> tasks s = []) \<and> clearsIdle ms (onMessage m s))"

fun clearIdle :: "event \<Rightarrow> server \<Rightarrow> bool" where
  "clearIdle (Message m) s = clearsIdle [m] s"
| "clearIdle (Messages ms) s = clearsIdle ms s"
| "clearIdle e s = True"

fun clearsWhileIdle :: "event list \<Rightarrow> server \<Rightarrow> bool" where
  "clearsWhileIdle [] s = True"
| "clearsWhileIdle (e # es) s =
     (clearIdle e s \<and>
      (case step e s of None \<Rightarrow> True | Some s' \<Rightarrow> clearsWhileIdle es s'))"

text \<open>
  No frame waits for the translation of an empty text, and no transcription event
  with an empty source text has been sent.
\<close>

definition textInv :: "server \<Rightarrow> bool" where
  "textInv s =
     ((\<forall>p \<in> set (tasks s). waiting (snd p) \<noteq> AwaitTranslate [])
      \<and> (\<forall>tgt f. Transcription [] tgt f \<notin> set (sent s)))"

text \<open>
  The states after one audio message of 4000 bytes and the timer: the first
  invocation awaits its transcription; and after the transcription \<open>hola\<close> came
  back: it awaits the translation.
\<close>

definition firstInvocation :: invocation where
  "firstInvocation =
     \<lparr>isFinal = False, combinedAudio = chunk 4000, waiting = AwaitTranscribe,
      awaitedBy = TimerCallback\<rparr>"

definition transcribing :: server where
  "transcribing =
     (connection ''a'')
       \<lparr>sessionData := (sessionData (connection ''a''))
          \<lparr>audioChunks := [chunk 4000], isProcessing := True\<rparr>,
        nextTimer := 1, tasks := [(0, firstInvocation)], nextTask := 1,
        calls := [transcriptionRequest [chunk 4000] ''zh'']\<rparr>"

definition translating :: server where
  "translating =
     transcribing
       \<lparr>sessionData := (sessionData transcribing)\<lparr>lastTranscript := ''hola''\<rparr>,
        tasks := [(0, firstInvocation\<lparr>waiting := AwaitTranslate ''hola''\<rparr>)],
        calls := calls transcribing @ [chatRequest ''zh'' ''en'' ''hola'']\<rparr>"

text \<open>The audio fragments that the audio messages among the events carry.\<close>

fun fragments :: "message list \<Rightarrow> buffer list" where
  "fragments [] = []"
| "fragments (Audio (Some b) src tgt # ms) = b # fragments ms"
| "fragments (m # ms) = fragments ms"

fun audioOf :: "event list \<Rightarrow> buffer list" where
  "audioOf [] = []"
| "audioOf (Message m # es) = fragments [m] @ audioOf es"
| "audioOf (Messages ms # es) = fragments ms @ audioOf es"
| "audioOf (e # es) = audioOf es"

text \<open>
  A blob is over the chunks of a set when it is the concatenation of chunks of the
  set; a Gateway request is when it is a chat request, or a transcription request
  whose content is.
\<close>

definition overChunks :: "buffer set \<Rightarrow> buffer \<Rightarrow> bool" where
  "overChunks A b = (\<exists>xs. set xs \<subseteq> A \<and> b = concat xs)"

fun requestOver :: "buffer set \<Rightarrow> gateway_call \<Rightarrow> bool" where
  "requestOver A (TranscriptionsComplete model fileName content language) = overChunks A content"
| "requestOver A (ChatComplete model messages) = True"

text \<open>
  What holds after a clear message, for the set of the chunks received since: the
  buffer holds only such chunks; the Gateway requests made since (those past the
  first \<open>n\<close>) are over them; and, when no invocation was in flight at the clear,
  every parked frame is over them.
\<close>

definition afterClear :: "buffer set \<Rightarrow> nat \<Rightarrow> bool \<Rightarrow> server \<Rightarrow> bool" where
  "afterClear A n idle s =
     (set (buffered s) \<subseteq> A
      \<and> (\<forall>c \<in> set (drop n (calls s)). requestOver A c)
      \<and> (idle \<longrightarrow> (\<forall>p \<in> set (tasks s). overChunks A (combinedAudio (snd p)))))"

text \<open>
  The state after ten buffered bytes and a stop message: the final invocation awaits
  its transcription.
\<close>

definition stopping :: server where
  "stopping =
     (connection ''a'')
       \<lparr>sessionData := (sessionData (connection ''a''))
          \<lparr>audioChunks := [chunk 10], isProcessing := True\<rparr>,
        timers := [], nextTimer := 1,
        tasks := [(0, \<lparr>isFinal = True, combinedAudio = chunk 10, waiting = AwaitTranscribe,
                      awaitedBy = StopHandler\<rparr>)],
        nextTask := 1,
        calls := [transcriptionRequest [chunk 10] ''zh'']\<rparr>"

lemmas handler_defs =
  connection_def orElse_def setTimeout_def clearTimeout_def scheduleProcessing_def
  processAudioStream_def finalReset_def catchBlock_def finallyBlock_def
  afterTranscribe_def afterTranslate_def afterThrow_def cancelTimer_def
  timerCallback_def onClose_def step_def runMicrotasks_def Let_def

section \<open>Properties\<close>

subsection \<open>Turns and their microtasks\<close>

lemma step_SomeD:
  "step e s = Some s' \<Longrightarrow> deferred s = [] \<and> (\<exists>x. handle e s = Some x \<and> s' = runMicrotasks x)"
  by (auto simp: step_def split: if_splits)

lemma resumeAll_fields:
  "calls (resumeAll ks s) = calls s \<and> tasks (resumeAll ks s) = tasks s
   \<and> sent (resumeAll ks s) = sent s \<and> inFlight (resumeAll ks s) = inFlight s
   \<and> deferred (resumeAll ks s) = deferred s \<and> nextTask (resumeAll ks s) = nextTask s
   \<and> wsOpen (resumeAll ks s) = wsOpen s"
proof (induction ks arbitrary: s)
  case Nil
  show ?case by simp
next
  case (Cons k ks)
  have "calls (resume k s) = calls s \<and> tasks (resume k s) = tasks s
   \<and> sent (resume k s) = sent s \<and> inFlight (resume k s) = inFlight s
   \<and> deferred (resume k s) = deferred s \<and> nextTask (resume k s) = nextTask s
   \<and> wsOpen (resume k s) = wsOpen s"
    by (cases k) (simp_all add: inFlight_def scheduleProcessing_def setTimeout_def)
  then show ?case
    using Cons.IH [of "resume k s"] by simp
qed

lemma resumeAll_session:
  "buffered (resumeAll ks s) = (if StopHandler \<in> set ks then [] else buffered s)
   \<and> lastEmitted (resumeAll ks s) = (if StopHandler \<in> set ks then ([], []) else lastEmitted s)"
proof (induction ks arbitrary: s)
  case Nil
  show ?case by simp
next
  case (Cons k ks)
  show ?case
  proof (cases k)
    case StopHandler
    have "buffered (resume StopHandler s) = [] \<and> lastEmitted (resume StopHandler s) = ([], [])"
      by (simp add: buffered_def lastEmitted_def)
    then show ?thesis
      using Cons.IH [of "resume k s"] StopHandler by simp
  next
    case TimerCallback
    have "buffered (resume TimerCallback s) = buffered s
        \<and> lastEmitted (resume TimerCallback s) = lastEmitted s"
      by (simp add: buffered_def lastEmitted_def scheduleProcessing_def setTimeout_def)
    then show ?thesis
      using Cons.IH [of "resume k s"] TimerCallback by simp
  qed
qed

lemma runMicrotasks_fields:
  "calls (runMicrotasks s) = calls s \<and> tasks (runMicrotasks s) = tasks s
   \<and> sent (runMicrotasks s) = sent s \<and> inFlight (runMicrotasks s) = inFlight s
   \<and> deferred (runMicrotasks s) = [] \<and> nextTask (runMicrotasks s) = nextTask s
   \<and> wsOpen (runMicrotasks s) = wsOpen s"
  using resumeAll_fields [of "deferred s" "s\<lparr>deferred := []\<rparr>"]
  by (simp add: runMicrotasks_def inFlight_def)

lemma runMicrotasks_session:
  "buffered (runMicrotasks s) = (if StopHandler \<in> set (deferred s) then [] else buffered s)
   \<and> lastEmitted (runMicrotasks s) =
       (if StopHandler \<in> set (deferred s) then ([], []) else lastEmitted s)"
  using resumeAll_session [of "deferred s" "s\<lparr>deferred := []\<rparr>"]
  by (simp add: runMicrotasks_def buffered_def lastEmitted_def)

lemma awaitResult_fields:
  "calls (awaitResult k cs) = calls (snd cs) \<and> tasks (awaitResult k cs) = tasks (snd cs)
   \<and> sent (awaitResult k cs) = sent (snd cs)
   \<and> sessionData (awaitResult k cs) = sessionData (snd cs)
   \<and> timers (awaitResult k cs) = timers (snd cs)
   \<and> nextTask (awaitResult k cs) = nextTask (snd cs)
   \<and> deferred (awaitResult k cs) =
       (if fst cs = Returned then deferred (snd cs) @ [k] else deferred (snd cs))"
  by (cases cs, cases "fst cs") simp_all

lemma map_of_filter_other: "map_of (filter (\<lambda>p. fst p \<noteq> tid) xs) tid = None"
  by (induction xs) auto

lemma map_of_map_same:
  "map_of xs tid = Some v \<Longrightarrow>
   map_of (map (\<lambda>p. if fst p = tid then (tid, w) else p) xs) tid = Some w"
  by (induction xs) (auto split: if_splits)

lemma processAudioStream_final:
  "processAudioStream True k s =
     (if isProcessing (sessionData s) \<or> audioChunks (sessionData s) = [] then (Returned, s)
      else (Suspended,
             s\<lparr>sessionData := (sessionData s)\<lparr>isProcessing := True\<rparr>,
               calls := calls s @
                 [transcriptionRequest (audioChunks (sessionData s)) (sourceLanguage (sessionData s))],
               tasks := tasks s @
                 [(nextTask s,
                   \<lparr>isFinal = True, combinedAudio = concat (audioChunks (sessionData s)),
                    waiting = AwaitTranscribe, awaitedBy = k\<rparr>)],
               nextTask := Suc (nextTask s)\<rparr>))"
  by (simp add: processAudioStream_def Let_def transcriptionRequest_def)

lemma cancelTimer_fields:
  "sessionData (cancelTimer s) = (sessionData s)\<lparr>processingTimer := None\<rparr>
   \<and> tasks (cancelTimer s) = tasks s \<and> calls (cancelTimer s) = calls s
   \<and> sent (cancelTimer s) = sent s \<and> nextTask (cancelTimer s) = nextTask s
   \<and> deferred (cancelTimer s) = deferred s"
  by (cases "processingTimer (sessionData s)")
     (simp_all add: cancelTimer_def clearTimeout_def Let_def)

lemma finallyBlock_fields:
  "\<not> inFlight (finallyBlock tid s) \<and> map_of (tasks (finallyBlock tid s)) tid = None
   \<and> buffered (finallyBlock tid s) = buffered s \<and> lastEmitted (finallyBlock tid s) = lastEmitted s
   \<and> deferred (finallyBlock tid s) = deferred s"
  by (simp add: finallyBlock_def inFlight_def buffered_def lastEmitted_def map_of_filter_other)

lemma segments_deferred:
  "deferred (snd (afterTranscribe tid v r s)) = deferred s"
  "deferred (snd (afterTranslate tid v t c s)) = deferred s"
  "deferred (snd (afterThrow tid v s)) = deferred s"
  "deferred (finallyBlock tid (finalReset v s)) = deferred s"
  "deferred (snd (processAudioStream final k s)) = deferred s"
  by (simp_all add: afterTranscribe_def afterTranslate_def afterThrow_def finallyBlock_def
        finalReset_def catchBlock_def processAudioStream_def Let_def)

subsection \<open>The debounce timer\<close>

lemma timerInv_connection: "timerInv (connection sid)"
  by (simp add: timerInv_def connection_def)

lemma timerInv_scheduleProcessing: "timerInv s \<Longrightarrow> timerInv (scheduleProcessing s)"
  by (auto simp: timerInv_def scheduleProcessing_def setTimeout_def split: option.splits)

lemma timers_cancelTimer: "timerInv s \<Longrightarrow> timers (cancelTimer s) = []"
  by (auto simp: timerInv_def cancelTimer_def clearTimeout_def Let_def split: option.splits)

lemma timerInv_resume: "timerInv s \<Longrightarrow> timerInv (resume k s)"
  by (cases k) (auto simp: timerInv_scheduleProcessing, auto simp: timerInv_def)

lemma timerInv_processAudioStream:
  "timerInv s \<Longrightarrow> timerInv (snd (processAudioStream final k s))"
  by (auto simp: timerInv_def processAudioStream_def Let_def)

lemma timerInv_awaitResult: "timerInv (snd cs) \<Longrightarrow> timerInv (awaitResult k cs)"
  by (simp add: timerInv_def awaitResult_fields)

lemma timerInv_resumeAll: "timerInv s \<Longrightarrow> timerInv (resumeAll ks s)"
  by (induction ks arbitrary: s) (simp_all add: timerInv_resume del: resume.simps)

lemma timerInv_runMicrotasks: "timerInv s \<Longrightarrow> timerInv (runMicrotasks s)"
  unfolding runMicrotasks_def
  by (rule timerInv_resumeAll) (simp add: timerInv_def)

lemma timerInv_finalReset: "timerInv s \<Longrightarrow> timerInv (finalReset v s)"
  by (auto simp: timerInv_def finalReset_def)

lemma timerInv_catchBlock: "timerInv s \<Longrightarrow> timerInv (catchBlock s)"
  by (auto simp: timerInv_def catchBlock_def)

lemma timerInv_finallyBlock: "timerInv s \<Longrightarrow> timerInv (finallyBlock tid s)"
  by (auto simp: timerInv_def finallyBlock_def)

lemma timerInv_afterTranscribe:
  "timerInv s \<Longrightarrow> timerInv (snd (afterTranscribe tid v r s))"
  unfolding afterTranscribe_def Let_def
  by (auto simp: timerInv_finallyBlock timerInv_finalReset) (auto simp: timerInv_def)

lemma timerInv_afterTranslate:
  "timerInv s \<Longrightarrow> timerInv (snd (afterTranslate tid v nt c s))"
  unfolding afterTranslate_def Let_def snd_conv
  by (rule timerInv_finallyBlock, rule timerInv_finalReset) (auto simp: timerInv_def)

lemma timerInv_afterThrow: "timerInv s \<Longrightarrow> timerInv (snd (afterThrow tid v s))"
  by (simp add: afterThrow_def timerInv_finallyBlock timerInv_catchBlock)

lemma timerInv_cancelTimer: "timerInv s \<Longrightarrow> timerInv (cancelTimer s)"
  by (simp add: timerInv_def timers_cancelTimer)

lemma timerInv_onMessage: "timerInv s \<Longrightarrow> timerInv (onMessage m s)"
proof (cases m)
  case (Audio a src tgt)
  assume inv: "timerInv s"
  show ?thesis
  proof (cases a)
    case None
    with Audio inv show ?thesis by simp
  next
    case (Some b)
    have "timerInv (s\<lparr>sessionData := (sessionData s)
                 \<lparr>audioChunks := audioChunks (sessionData s) @ [b],
                  sourceLanguage := orElse src ''zh'',
                  targetLanguage := orElse tgt ''en''\<rparr>\<rparr>)" (is "timerInv ?s1")
      using inv by (auto simp: timerInv_def)
    then show ?thesis using Audio Some
      by (auto simp: Let_def timerInv_scheduleProcessing)
  qed
next
  case (Config src tgt)
  assume "timerInv s"
  then show ?thesis using Config by (auto simp: timerInv_def)
next
  case (Stop a src tgt)
  assume "timerInv s"
  then show ?thesis using Stop
    by (simp add: timerInv_awaitResult timerInv_processAudioStream timerInv_cancelTimer)
next
  case Clear
  assume "timerInv s"
  then have "timerInv (s\<lparr>sessionData := (sessionData s)
          \<lparr>audioChunks := [], lastTranscript := [], lastTranslation := [],
           isProcessing := False\<rparr>\<rparr>)"
    by (auto simp: timerInv_def)
  then show ?thesis using Clear by (simp add: timerInv_cancelTimer)
qed simp_all

lemma timerInv_timerCallback:
  assumes inv: "timerInv s" and pending: "t \<in> set (timers s)"
  shows "timerInv (timerCallback t s)"
proof -
  let ?s1 = "clearTimeout t s"
  let ?s2 = "?s1\<lparr>sessionData := (sessionData ?s1)\<lparr>processingTimer := None\<rparr>\<rparr>"
  have "timers s = [t]"
    using inv pending by (auto simp: timerInv_def)
  then have "timerInv ?s2"
    by (simp add: timerInv_def clearTimeout_def)
  then show ?thesis
    by (simp add: timerCallback_def Let_def timerInv_awaitResult timerInv_processAudioStream)
qed

lemma timers_onClose: "timerInv s \<Longrightarrow> timers (onClose s) = []"
  by (auto simp: timerInv_def onClose_def clearTimeout_def Let_def split: option.splits)

lemma timerInv_dispatch: "timerInv s \<Longrightarrow> timerInv (dispatch ms s)"
  by (induction ms arbitrary: s) (simp_all add: timerInv_onMessage del: onMessage.simps)

lemma timerInv_handle:
  assumes "timerInv s" and "handle e s = Some s'"
  shows "timerInv s'"
proof (cases e)
  case (Message m)
  with assms show ?thesis by (auto simp: timerInv_onMessage split: if_splits)
next
  case (Messages ms)
  with assms show ?thesis by (auto simp: timerInv_dispatch split: if_splits)
next
  case (TimerFires t)
  with assms show ?thesis by (auto simp: timerInv_timerCallback split: if_splits)
next
  case (TranscribeReturns tid r)
  with assms show ?thesis
    by (auto simp: timerInv_awaitResult timerInv_afterTranscribe split: option.splits phase.splits)
next
  case (TranscribeThrows tid)
  with assms show ?thesis
    by (auto simp: timerInv_awaitResult timerInv_afterThrow split: option.splits phase.splits)
next
  case (TranslateReturns tid content)
  with assms show ?thesis
    by (auto simp: timerInv_awaitResult timerInv_afterTranslate split: option.splits phase.splits)
next
  case (TranslateThrows tid)
  with assms show ?thesis
    by (auto simp: timerInv_awaitResult timerInv_afterThrow split: option.splits phase.splits)
next
  case Close
  with assms show ?thesis
    by (auto simp: timers_onClose timerInv_def split: if_splits)
qed

lemma timerInv_step:
  assumes "timerInv s" and "step e s = Some s'"
  shows "timerInv s'"
  using assms step_SomeD timerInv_handle timerInv_runMicrotasks by blast

lemma timerInv_run: "timerInv s \<Longrightarrow> run evs s = Some s' \<Longrightarrow> timerInv s'"
proof (induction evs arbitrary: s)
  case Nil
  then show ?case by simp
next
  case (Cons e es)
  then show ?case
    by (auto split: option.splits dest: timerInv_step)
qed

lemma timers_scheduleProcessing_pending:
  "timerInv s \<Longrightarrow> timers s \<noteq> [] \<Longrightarrow> scheduleProcessing s = s"
  by (auto simp: timerInv_def scheduleProcessing_def)

lemma timers_stop: "timerInv s \<Longrightarrow> timers (onMessage (Stop a src tgt) s) = []"
  by (auto simp: processAudioStream_def Let_def timers_cancelTimer)

text \<open>
  Claim C9. In every state the event loop can reach from a fresh connection, at most one
  debounce timeout is pending; \<open>scheduleProcessing\<close> leaves a pending one alone and
  never makes a second; and after the handling of a stop message, of a clear message
  or of the socket's close no timeout is pending.
\<close>

theorem at_most_one_timer:
  assumes "run evs (connection sid) = Some s"
  shows "length (timers s) \<le> 1
       \<and> (timers s \<noteq> [] \<longrightarrow> scheduleProcessing s = s)
       \<and> length (timers (scheduleProcessing s)) \<le> 1
       \<and> timers (onMessage (Stop a src tgt) s) = []
       \<and> timers (onMessage Clear s) = []
       \<and> timers (onClose s) = []"
proof -
  have inv: "timerInv s"
    using assms timerInv_connection timerInv_run by blast
  have "timerInv (scheduleProcessing s)"
    using inv by (rule timerInv_scheduleProcessing)
  then have "length (timers (scheduleProcessing s)) \<le> 1"
    by (auto simp: timerInv_def)
  moreover have "length (timers s) \<le> 1"
    using inv by (auto simp: timerInv_def)
  moreover have "timers (onMessage Clear s) = []"
    using inv by (auto simp: timerInv_def cancelTimer_def clearTimeout_def Let_def split: option.splits)
  moreover have "timers (onMessage (Stop a src tgt) s) = []"
    using inv by (rule timers_stop)
  moreover have "timers (onClose s) = []"
    using inv by (rule timers_onClose)
  moreover have "timers s \<noteq> [] \<longrightarrow> scheduleProcessing s = s"
    using inv by (simp add: timers_scheduleProcessing_pending)
  ultimately show ?thesis
    by blast
qed

text \<open>
  Three audio messages in a row: the first arms the timer and the others find it
  armed; a stop, a clear or the close then leaves no timeout pending.
\<close>

theorem at_most_one_timer_witness:
  "run [Message (Audio (Some (chunk 1000)) None None),
        Message (Audio (Some (chunk 1000)) None None),
        Message (Audio (Some (chunk 1000)) None None)] (connection ''a'') = Some threeFragments
   \<and> timers threeFragments = [0]
   \<and> scheduleProcessing threeFragments = threeFragments
   \<and> timers (onMessage (Stop None None None) threeFragments) = []
   \<and> timers (onMessage Clear threeFragments) = []
   \<and> timers (onClose threeFragments) = []"
proof -
  have reach: "run [Message (Audio (Some (chunk 1000)) None None),
        Message (Audio (Some (chunk 1000)) None None),
        Message (Audio (Some (chunk 1000)) None None)] (connection ''a'') = Some threeFragments"
    by (simp add: threeFragments_def handler_defs)
  have armed: "timers threeFragments = [0]"
    by (simp add: threeFragments_def)
  show ?thesis
    using at_most_one_timer [OF reach, of None None None] reach armed
    by simp
qed

subsection \<open>The REST endpoint\<close>

text \<open>
  Claim C10. A POST to /api/translate whose \<open>text\<close> field is a non-empty string, when
  the chat call resolves without message content (absent or empty), is answered with
  status 200 and a body whose \<open>translatedText\<close> is the input text and whose
  \<open>success\<close> is true; a request whose \<open>text\<close> field is missing or empty is answered
  with status 400 and no request is made to the chat service.
\<close>

theorem translate_endpoint_fallback:
  "(text = Some t \<and> t \<noteq> [] \<and> (content = None \<or> content = Some [])
      \<and> chat (chatRequest (render src) (render tgt) t) = ChatResolves content
      \<longrightarrow> postTranslate chat text src tgt =
            ((200, TranslationBody t True), [chatRequest (render src) (render tgt) t]))
   \<and> (text = None \<or> text = Some []
      \<longrightarrow> postTranslate chat text src tgt = ((400, ErrorBody ''Text required''), []))"
  by (auto simp: postTranslate_def orElse_def Let_def)

text \<open>The two cases at concrete requests, against a chat service without content.\<close>

theorem translate_endpoint_fallback_witness:
  "postTranslate silentChat (Some ''ni hao'') (Some ''zh'') (Some ''en'') =
     ((200, TranslationBody ''ni hao'' True), [chatRequest ''zh'' ''en'' ''ni hao''])
   \<and> postTranslate silentChat (Some []) (Some ''zh'') (Some ''en'') =
     ((400, ErrorBody ''Text required''), [])"
  using translate_endpoint_fallback
          [of "Some ''ni hao''" "''ni hao''" None silentChat "Some ''zh''" "Some ''en''"]
        translate_endpoint_fallback
          [of "Some []" "[]" None silentChat "Some ''zh''" "Some ''en''"]
  by (simp add: silentChat_def render_def)

subsection \<open>The minimum-size policy\<close>

text \<open>
  Claim C5. When fewer than 4000 bytes are buffered, a non-final call of
  \<open>processAudioStream\<close> returns at once: no Gateway request is made, no frame is
  parked, the buffer is as it was, and an invocation that passed the guard (the flag
  was false on entry) leaves \<open>isProcessing\<close> false. The same holds for the whole timer
  callback, the only place a non-final call is made from.
\<close>

theorem minimum_size_policy:
  assumes "length (concat (audioChunks (sessionData s))) < 4000"
  shows "fst (processAudioStream False k s) = Returned
       \<and> calls (snd (processAudioStream False k s)) = calls s
       \<and> tasks (snd (processAudioStream False k s)) = tasks s
       \<and> audioChunks (sessionData (snd (processAudioStream False k s))) =
           audioChunks (sessionData s)
       \<and> (\<not> isProcessing (sessionData s) \<longrightarrow>
            \<not> isProcessing (sessionData (snd (processAudioStream False k s))))
       \<and> calls (timerCallback t s) = calls s
       \<and> tasks (timerCallback t s) = tasks s
       \<and> audioChunks (sessionData (timerCallback t s)) = audioChunks (sessionData s)
       \<and> (\<not> isProcessing (sessionData s) \<longrightarrow>
            \<not> isProcessing (sessionData (timerCallback t s)))"
proof -
  have entry: "processAudioStream False k' s' =
          (Returned,
           if isProcessing (sessionData s') \<or> audioChunks (sessionData s') = [] then s'
           else s'\<lparr>sessionData := (sessionData s')\<lparr>isProcessing := False\<rparr>\<rparr>)"
    if "length (concat (audioChunks (sessionData s'))) < 4000" for k' s'
    using that by (simp add: processAudioStream_def Let_def)
  have cb: "calls (timerCallback t s) = calls s
            \<and> tasks (timerCallback t s) = tasks s
            \<and> audioChunks (sessionData (timerCallback t s)) = audioChunks (sessionData s)
            \<and> (\<not> isProcessing (sessionData s) \<longrightarrow>
                  \<not> isProcessing (sessionData (timerCallback t s)))"
    using assms
    by (simp add: timerCallback_def Let_def entry scheduleProcessing_def
          setTimeout_def clearTimeout_def)
  show ?thesis
    using cb by (simp add: entry [OF assms])
qed

text \<open>
  Three fragments of 1000 bytes, then the timer fires: nothing is requested and the
  3000 bytes stay buffered.
\<close>

theorem minimum_size_policy_witness:
  "run [Message (Audio (Some (chunk 1000)) None None),
        Message (Audio (Some (chunk 1000)) None None),
        Message (Audio (Some (chunk 1000)) None None)] (connection ''a'') = Some threeFragments
   \<and> length (concat (buffered threeFragments)) = 3000
   \<and> fst (processAudioStream False TimerCallback threeFragments) = Returned
   \<and> calls (timerCallback 0 threeFragments) = []
   \<and> tasks (timerCallback 0 threeFragments) = []
   \<and> buffered (timerCallback 0 threeFragments) = [chunk 1000, chunk 1000, chunk 1000]
   \<and> \<not> inFlight (timerCallback 0 threeFragments)"
proof -
  have small: "length (concat (audioChunks (sessionData threeFragments))) < 4000"
    by (simp add: threeFragments_def chunk_def)
  have reach: "run [Message (Audio (Some (chunk 1000)) None None),
        Message (Audio (Some (chunk 1000)) None None),
        Message (Audio (Some (chunk 1000)) None None)] (connection ''a'') = Some threeFragments"
    by (simp add: threeFragments_def handler_defs)
  have start: "calls threeFragments = [] \<and> tasks threeFragments = []
      \<and> audioChunks (sessionData threeFragments) = [chunk 1000, chunk 1000, chunk 1000]
      \<and> \<not> isProcessing (sessionData threeFragments)"
    by (simp add: threeFragments_def connection_def)
  show ?thesis
    using minimum_size_policy [OF small, of TimerCallback 0] reach start
    by (simp add: buffered_def inFlight_def chunk_def)
qed

subsection \<open>The stop message\<close>

text \<open>
  A stop message on a fresh connection, where nothing is buffered: the guard of
  \<open>processAudioStream\<close> returns before any Gateway request.
\<close>

theorem stop_with_empty_buffer_counterexample:
  "map_option calls (run [Message (Stop None None None)] (connection ''a'')) = Some []"
  by (simp add: handler_defs)

text \<open>
  Claim C3, amended. The final invocation forced by a stop message ignores the
  4000-byte minimum: whenever \<open>isProcessing\<close> is false and at least one chunk is
  buffered, the stop parks a final invocation that requests the transcription of the
  concatenated chunks, however few bytes they hold. When no chunk is buffered, or
  \<open>isProcessing\<close> is true, the guard returns first and the stop makes no Gateway
  request and no invocation. The guard reads the flag, not the parked invocations:
  where a clear has reset the flag during an invocation, a stop starts a second one.
\<close>

theorem stop_final_invocation:
  "calls (onMessage (Stop a src tgt) s) =
     (if isProcessing (sessionData s) \<or> audioChunks (sessionData s) = [] then calls s
      else calls s @
        [transcriptionRequest (audioChunks (sessionData s)) (sourceLanguage (sessionData s))])
   \<and> tasks (onMessage (Stop a src tgt) s) =
     (if isProcessing (sessionData s) \<or> audioChunks (sessionData s) = [] then tasks s
      else tasks s @
        [(nextTask s,
          \<lparr>isFinal = True, combinedAudio = concat (audioChunks (sessionData s)),
           waiting = AwaitTranscribe, awaitedBy = StopHandler\<rparr>)])"
  by (simp add: processAudioStream_final cancelTimer_fields)

text \<open>
  Ten buffered bytes are transcribed on stop. And after 4000 bytes, the timer, a
  clear, and ten more bytes, the first invocation is still active and the flag is
  false: the stop requests a second transcription, over the ten bytes.
\<close>

theorem stop_final_invocation_witness:
  "map_option calls
     (run [Message (Audio (Some (chunk 10)) None None), Message (Stop None None None)]
        (connection ''a'')) =
   Some [transcriptionRequest [chunk 10] ''zh'']
   \<and> map_option activeInvocations
     (run [Message (Audio (Some (chunk 4000)) None None), TimerFires 0, Message Clear,
           Message (Audio (Some (chunk 10)) None None)] (connection ''a'')) = Some 1
   \<and> map_option inFlight
     (run [Message (Audio (Some (chunk 4000)) None None), TimerFires 0, Message Clear,
           Message (Audio (Some (chunk 10)) None None)] (connection ''a'')) = Some False
   \<and> map_option calls
     (run [Message (Audio (Some (chunk 4000)) None None), TimerFires 0, Message Clear,
           Message (Audio (Some (chunk 10)) None None), Message (Stop None None None)]
        (connection ''a'')) =
   Some [transcriptionRequest [chunk 4000] ''zh'', transcriptionRequest [chunk 10] ''zh'']"
  using stop_final_invocation
          [of None None None
              "the (run [Message (Audio (Some (chunk 10)) None None)] (connection ''a''))"]
        stop_final_invocation
          [of None None None
              "the (run [Message (Audio (Some (chunk 4000)) None None), TimerFires 0,
                         Message Clear, Message (Audio (Some (chunk 10)) None None)]
                      (connection ''a''))"]
  by (simp add: handler_defs transcriptionRequest_def activeInvocations_def inFlight_def
        chunk_def)

text \<open>
  Claim C7. The claim asks that the fragment a stop message carries be appended to
  the buffer before the final invocation. The stop branch never reads the message's
  \<open>audio\<close> field: the handler does the same with and without a fragment. On a fresh
  connection a stop carrying 4000 bytes leaves the state as it was (nothing
  transcribed, nothing sent), and after ten buffered bytes the final transcription
  request holds those ten bytes only.
\<close>

theorem stop_drops_fragment:
  "onMessage (Stop (Some fragment) src tgt) s = onMessage (Stop None src tgt) s
   \<and> run [Message (Stop (Some (chunk 4000)) None None)] (connection ''a'') =
       Some (connection ''a'')
   \<and> map_option calls
       (run [Message (Audio (Some (chunk 10)) None None),
             Message (Stop (Some (chunk 4000)) None None)] (connection ''a'')) =
     Some [transcriptionRequest [chunk 10] ''zh'']"
  by (simp add: handler_defs transcriptionRequest_def)

subsection \<open>What a stop leaves behind\<close>

lemma stop_handler:
  "onMessage (Stop a src tgt) s =
     awaitResult StopHandler (processAudioStream True StopHandler (cancelTimer s))"
  by simp

lemma stop_returns:
  assumes "isProcessing (sessionData s) \<or> audioChunks (sessionData s) = []"
  shows "tasks (onMessage (Stop a src tgt) s) = tasks s
       \<and> deferred (onMessage (Stop a src tgt) s) = deferred s @ [StopHandler]
       \<and> inFlight (onMessage (Stop a src tgt) s) = inFlight s
       \<and> calls (onMessage (Stop a src tgt) s) = calls s"
  using assms by (simp add: processAudioStream_final cancelTimer_fields inFlight_def)

lemma stop_suspends:
  assumes "\<not> (isProcessing (sessionData s) \<or> audioChunks (sessionData s) = [])"
  shows "inFlight (onMessage (Stop a src tgt) s)
       \<and> deferred (onMessage (Stop a src tgt) s) = deferred s
       \<and> tasks (onMessage (Stop a src tgt) s) = tasks s @
            [(nextTask s,
              \<lparr>isFinal = True, combinedAudio = concat (buffered s),
               waiting = AwaitTranscribe, awaitedBy = StopHandler\<rparr>)]"
  using assms by (simp add: processAudioStream_final cancelTimer_fields inFlight_def buffered_def)

lemma afterTranscribe_cases:
  "map_of (tasks s) tid = Some v \<Longrightarrow>
   (fst (afterTranscribe tid v r s) = Suspended
      \<and> map_of (tasks (snd (afterTranscribe tid v r s))) tid \<noteq> None)
   \<or> (fst (afterTranscribe tid v r s) = Returned
      \<and> afterTranscribe tid v r s = (Returned, finallyBlock tid (finalReset v s)))"
  by (simp add: afterTranscribe_def Let_def map_of_map_same)

lemma stop_handled_at_once:
  assumes "step e s = Some s'"
  shows "e = Message (Stop a src tgt) \<and> tasks s' = tasks s \<longrightarrow>
            buffered s' = [] \<and> lastEmitted s' = ([], []) \<and> inFlight s' = inFlight s"
proof
  assume h: "e = Message (Stop a src tgt) \<and> tasks s' = tasks s"
  let ?x = "onMessage (Stop a src tgt) s"
  have s': "s' = runMicrotasks ?x"
    using assms h step_SomeD [of e s s'] by (auto split: if_splits)
  then have same: "tasks ?x = tasks s"
    using h by (simp add: runMicrotasks_fields)
  have guard: "isProcessing (sessionData s) \<or> audioChunks (sessionData s) = []"
    using stop_suspends [of s a src tgt] same by auto
  then have "StopHandler \<in> set (deferred ?x)" and "inFlight ?x = inFlight s"
    using stop_returns [of s a src tgt] by simp_all
  then show "buffered s' = [] \<and> lastEmitted s' = ([], []) \<and> inFlight s' = inFlight s"
    using s' by (simp add: runMicrotasks_session runMicrotasks_fields)
qed

lemma stop_parks_final_invocation:
  assumes "step e s = Some s'"
  shows "e = Message (Stop a src tgt) \<and> tasks s' \<noteq> tasks s \<longrightarrow>
            \<not> inFlight s \<and> inFlight s' \<and>
            tasks s' = tasks s @
              [(nextTask s,
                \<lparr>isFinal = True, combinedAudio = concat (buffered s),
                 waiting = AwaitTranscribe, awaitedBy = StopHandler\<rparr>)]"
proof
  assume h: "e = Message (Stop a src tgt) \<and> tasks s' \<noteq> tasks s"
  let ?x = "onMessage (Stop a src tgt) s"
  have s': "s' = runMicrotasks ?x"
    using assms h step_SomeD [of e s s'] by (auto split: if_splits)
  then have changed: "tasks ?x \<noteq> tasks s"
    using h by (simp add: runMicrotasks_fields)
  have guard: "\<not> (isProcessing (sessionData s) \<or> audioChunks (sessionData s) = [])"
    using stop_returns [of s a src tgt] changed by auto
  then have "\<not> inFlight s"
    by (simp add: inFlight_def)
  then show "\<not> inFlight s \<and> inFlight s' \<and>
            tasks s' = tasks s @
              [(nextTask s,
                \<lparr>isFinal = True, combinedAudio = concat (buffered s),
                 waiting = AwaitTranscribe, awaitedBy = StopHandler\<rparr>)]"
    using stop_suspends [OF guard, of a src tgt] s'
    by (simp add: runMicrotasks_fields del: onMessage.simps)
qed

lemma frame_returns_to_stop:
  assumes "deferred s = []" and "fst cs = Returned" and "deferred (snd cs) = deferred s"
    and "\<not> inFlight (snd cs)"
  shows "buffered (runMicrotasks (awaitResult StopHandler cs)) = []
       \<and> lastEmitted (runMicrotasks (awaitResult StopHandler cs)) = ([], [])
       \<and> \<not> inFlight (runMicrotasks (awaitResult StopHandler cs))"
proof -
  have "deferred (awaitResult StopHandler cs) = [StopHandler]"
    using assms by (simp add: awaitResult_fields)
  moreover have "inFlight (awaitResult StopHandler cs) = inFlight (snd cs)"
    by (simp add: inFlight_def awaitResult_fields)
  ultimately show ?thesis
    using assms(4) by (simp add: runMicrotasks_session runMicrotasks_fields)
qed

lemma stop_handled_later:
  assumes "step e s = Some s'"
  shows "answered e = Some tid \<and> map_of (tasks s) tid = Some v
            \<and> awaitedBy v = StopHandler \<and> map_of (tasks s') tid = None \<longrightarrow>
            buffered s' = [] \<and> lastEmitted s' = ([], []) \<and> \<not> inFlight s'"
proof
  assume h: "answered e = Some tid \<and> map_of (tasks s) tid = Some v
            \<and> awaitedBy v = StopHandler \<and> map_of (tasks s') tid = None"
  from assms obtain x where idle: "deferred s = []" and x: "handle e s = Some x"
    and s': "s' = runMicrotasks x"
    using step_SomeD by blast
  have gone: "map_of (tasks x) tid = None"
    using h s' by (simp add: runMicrotasks_fields)
  have thrown: "fst (afterThrow tid v s) = Returned
      \<and> deferred (snd (afterThrow tid v s)) = deferred s
      \<and> \<not> inFlight (snd (afterThrow tid v s))"
    by (simp add: afterThrow_def finallyBlock_fields segments_deferred catchBlock_def)
  have "\<exists>cs. x = awaitResult StopHandler cs \<and> fst cs = Returned
          \<and> deferred (snd cs) = deferred s \<and> \<not> inFlight (snd cs)"
  proof (cases e)
    case (TranscribeReturns i r)
    with h x have x': "x = awaitResult StopHandler (afterTranscribe tid v r s)"
      by (auto split: phase.splits)
    from h have "map_of (tasks s) tid = Some v"
      by simp
    from afterTranscribe_cases [OF this, of r]
    show ?thesis
    proof (elim disjE)
      assume "fst (afterTranscribe tid v r s) = Suspended
        \<and> map_of (tasks (snd (afterTranscribe tid v r s))) tid \<noteq> None"
      then have False
        using gone x' by (simp add: awaitResult_fields)
      then show ?thesis ..
    next
      assume ret: "fst (afterTranscribe tid v r s) = Returned
        \<and> afterTranscribe tid v r s = (Returned, finallyBlock tid (finalReset v s))"
      then have eq: "snd (afterTranscribe tid v r s) = finallyBlock tid (finalReset v s)"
        by simp
      have "deferred (snd (afterTranscribe tid v r s)) = deferred s
          \<and> \<not> inFlight (snd (afterTranscribe tid v r s))"
        unfolding eq by (simp add: finallyBlock_fields finalReset_def)
      with ret x' show ?thesis by blast
    qed
  next
    case (TranscribeThrows i)
    with h x have "x = awaitResult StopHandler (afterThrow tid v s)"
      by (auto split: phase.splits)
    with thrown show ?thesis by blast
  next
    case (TranslateReturns i c)
    with h x obtain nt where x': "x = awaitResult StopHandler (afterTranslate tid v nt c s)"
      by (auto split: phase.splits)
    have "fst (afterTranslate tid v nt c s) = Returned
      \<and> deferred (snd (afterTranslate tid v nt c s)) = deferred s
      \<and> \<not> inFlight (snd (afterTranslate tid v nt c s))"
      by (simp add: afterTranslate_def Let_def finallyBlock_def finalReset_def inFlight_def)
    with x' show ?thesis by blast
  next
    case (TranslateThrows i)
    with h x have "x = awaitResult StopHandler (afterThrow tid v s)"
      by (auto split: phase.splits)
    with thrown show ?thesis by blast
  qed (use h in simp_all)
  then show "buffered s' = [] \<and> lastEmitted s' = ([], []) \<and> \<not> inFlight s'"
    using frame_returns_to_stop [OF idle] s' by auto
qed

lemma dispatch_append: "dispatch (xs @ ys) s = dispatch ys (dispatch xs s)"
  by (induction xs arbitrary: s) simp_all

lemma deferred_onMessage: "set (deferred s) \<subseteq> set (deferred (onMessage m s))"
proof (cases m)
  case (Audio a src tgt)
  then show ?thesis
    by (cases a) (auto simp: Let_def scheduleProcessing_def setTimeout_def)
next
  case (Stop a src tgt)
  show ?thesis
    unfolding Stop
    using stop_returns [of s a src tgt] stop_suspends [of s a src tgt]
    by (cases "isProcessing (sessionData s) \<or> audioChunks (sessionData s) = []")
       (auto simp del: onMessage.simps)
next
  case Clear
  then show ?thesis by (simp add: cancelTimer_fields)
qed simp_all

lemma deferred_dispatch: "set (deferred s) \<subseteq> set (deferred (dispatch ms s))"
proof (induction ms arbitrary: s)
  case Nil
  show ?case by simp
next
  case (Cons m ms)
  show ?case
    using deferred_onMessage [of s m] Cons.IH [of "onMessage m s"] by auto
qed

lemma stop_handled_among_others:
  assumes "step e s = Some s'"
  shows "e = Messages (before @ Stop a src tgt # after)
          \<and> (inFlight (dispatch before s) \<or> buffered (dispatch before s) = []) \<longrightarrow>
            buffered s' = [] \<and> lastEmitted s' = ([], [])
            \<and> inFlight s' = inFlight (dispatch (before @ Stop a src tgt # after) s)"
proof
  assume h: "e = Messages (before @ Stop a src tgt # after)
          \<and> (inFlight (dispatch before s) \<or> buffered (dispatch before s) = [])"
  let ?y = "dispatch before s"
  let ?x = "dispatch (before @ Stop a src tgt # after) s"
  have s': "s' = runMicrotasks ?x"
    using assms h step_SomeD [of e s s'] by (auto split: if_splits)
  have "StopHandler \<in> set (deferred (onMessage (Stop a src tgt) ?y))"
    using h stop_returns [of ?y a src tgt] by (simp add: inFlight_def buffered_def)
  then have "StopHandler \<in> set (deferred ?x)"
    using deferred_dispatch [of "onMessage (Stop a src tgt) ?y" after]
    by (auto simp: dispatch_append)
  then show "buffered s' = [] \<and> lastEmitted s' = ([], [])
            \<and> inFlight s' = inFlight (dispatch (before @ Stop a src tgt # after) s)"
    using s' by (simp add: runMicrotasks_session runMicrotasks_fields)
qed

text \<open>
  Claim C6, amended. When the handling of a stop message completes (lines 67 to 69
  have run), the buffer is empty and \<open>lastTranscript\<close> and \<open>lastTranslation\<close> are
  the empty string, whatever the final invocation did. A stop that finds
  \<open>isProcessing\<close> false and a chunk buffered parks a final invocation; its handling
  completes when that invocation does, and \<open>isProcessing\<close> is then false. A stop
  that finds \<open>isProcessing\<close> true, or nothing buffered, makes no final invocation; its
  handling completes at the end of the turn and does not touch \<open>isProcessing\<close>,
  which is then as the handlers of the turn have left it: as the stop found it when
  the stop is the only message of the turn (still true, if it was), and as the
  messages dispatched after it in the same turn have set it otherwise.
\<close>

theorem stop_resets_session:
  assumes "step e s = Some s'"
  shows "(e = Message (Stop a src tgt) \<and> tasks s' = tasks s \<longrightarrow>
            buffered s' = [] \<and> lastEmitted s' = ([], []) \<and> inFlight s' = inFlight s)
       \<and> (e = Message (Stop a src tgt) \<and> tasks s' \<noteq> tasks s \<longrightarrow>
            \<not> inFlight s \<and> inFlight s' \<and>
            tasks s' = tasks s @
              [(nextTask s,
                \<lparr>isFinal = True, combinedAudio = concat (buffered s),
                 waiting = AwaitTranscribe, awaitedBy = StopHandler\<rparr>)])
       \<and> (answered e = Some tid \<and> map_of (tasks s) tid = Some v
            \<and> awaitedBy v = StopHandler \<and> map_of (tasks s') tid = None \<longrightarrow>
            buffered s' = [] \<and> lastEmitted s' = ([], []) \<and> \<not> inFlight s')
       \<and> (e = Messages (before @ Stop a src tgt # after)
            \<and> (inFlight (dispatch before s) \<or> buffered (dispatch before s) = []) \<longrightarrow>
            buffered s' = [] \<and> lastEmitted s' = ([], [])
            \<and> inFlight s' = inFlight (dispatch (before @ Stop a src tgt # after) s))
       \<and> (inFlight x \<or> buffered x = [] \<longrightarrow>
            tasks (onMessage (Stop a src tgt) x) = tasks x
            \<and> deferred (onMessage (Stop a src tgt) x) = deferred x @ [StopHandler]
            \<and> inFlight (onMessage (Stop a src tgt) x) = inFlight x)
       \<and> (\<not> inFlight x \<and> buffered x \<noteq> [] \<longrightarrow>
            inFlight (onMessage (Stop a src tgt) x)
            \<and> deferred (onMessage (Stop a src tgt) x) = deferred x
            \<and> tasks (onMessage (Stop a src tgt) x) = tasks x @
                 [(nextTask x,
                   \<lparr>isFinal = True, combinedAudio = concat (buffered x),
                    waiting = AwaitTranscribe, awaitedBy = StopHandler\<rparr>)])"
proof -
  have returns: "inFlight x \<or> buffered x = [] \<longrightarrow>
            tasks (onMessage (Stop a src tgt) x) = tasks x
            \<and> deferred (onMessage (Stop a src tgt) x) = deferred x @ [StopHandler]
            \<and> inFlight (onMessage (Stop a src tgt) x) = inFlight x"
    using stop_returns [of x a src tgt] by (simp add: inFlight_def buffered_def)
  have parks: "\<not> inFlight x \<and> buffered x \<noteq> [] \<longrightarrow>
            inFlight (onMessage (Stop a src tgt) x)
            \<and> deferred (onMessage (Stop a src tgt) x) = deferred x
            \<and> tasks (onMessage (Stop a src tgt) x) = tasks x @
                 [(nextTask x,
                   \<lparr>isFinal = True, combinedAudio = concat (buffered x),
                    waiting = AwaitTranscribe, awaitedBy = StopHandler\<rparr>)]"
    using stop_suspends [of x a src tgt] by (simp add: inFlight_def buffered_def)
  show ?thesis
    using stop_handled_at_once [OF assms, of a src tgt]
          stop_parks_final_invocation [OF assms, of a src tgt]
          stop_handled_later [OF assms, of tid v]
          stop_handled_among_others [OF assms, of before a src tgt after]
          returns parks
    by blast
qed

text \<open>
  A stop that arrives while the timer's invocation awaits the Gateway: its handling
  is complete after the turn (the buffer is reset, and the one active invocation is
  the timer's), and \<open>isProcessing\<close> is still true. And a stop on a fresh connection,
  followed in the same turn by ten bytes of audio and a second stop: nothing was in
  flight when the first stop arrived, it made no invocation, and when its handling
  completes at the end of the turn \<open>isProcessing\<close> is true.
\<close>

theorem stop_during_invocation_counterexample:
  "map_option inFlight
     (run [Message (Audio (Some (chunk 4000)) None None), TimerFires 0,
           Message (Stop None None None)] (connection ''a'')) = Some True
   \<and> map_option buffered
     (run [Message (Audio (Some (chunk 4000)) None None), TimerFires 0,
           Message (Stop None None None)] (connection ''a'')) = Some []
   \<and> map_option activeInvocations
     (run [Message (Audio (Some (chunk 4000)) None None), TimerFires 0,
           Message (Stop None None None)] (connection ''a'')) = Some 1
   \<and> map_option inFlight
     (run [Messages [Stop None None None, Audio (Some (chunk 10)) None None,
                     Stop None None None]] (connection ''a'')) = Some True
   \<and> map_option buffered
     (run [Messages [Stop None None None, Audio (Some (chunk 10)) None None,
                     Stop None None None]] (connection ''a'')) = Some []"
  by (simp add: handler_defs inFlight_def buffered_def activeInvocations_def chunk_def)

lemma reach_stopping:
  "run [Message (Audio (Some (chunk 10)) None None), Message (Stop None None None)]
     (connection ''a'') = Some stopping"
  by (simp add: stopping_def transcriptionRequest_def handler_defs)

lemma reach_transcribing:
  "run [Message (Audio (Some (chunk 4000)) None None), TimerFires 0] (connection ''a'') =
     Some transcribing"
  by (simp add: transcribing_def firstInvocation_def transcriptionRequest_def
        handler_defs chunk_def)

text \<open>
  Four stops: one over ten buffered bytes parks a final invocation, and when its
  transcription request fails the session is reset and the flag released; one that
  arrives while the timer's invocation is in flight is handled within its turn and
  leaves the flag set; and of two in one turn with ten bytes of audio between them,
  the first finds nothing buffered and the second parks an invocation, so that the
  turn ends with the session reset and the flag set.
\<close>

theorem stop_resets_session_witness:
  "run [Message (Audio (Some (chunk 10)) None None), Message (Stop None None None)]
     (connection ''a'') = Some stopping
   \<and> inFlight stopping
   \<and> map_option buffered (step (TranscribeThrows 0) stopping) = Some []
   \<and> map_option lastEmitted (step (TranscribeThrows 0) stopping) = Some ([], [])
   \<and> map_option inFlight (step (TranscribeThrows 0) stopping) = Some False
   \<and> run [Message (Audio (Some (chunk 4000)) None None), TimerFires 0] (connection ''a'') =
       Some transcribing
   \<and> map_option buffered (step (Message (Stop None None None)) transcribing) = Some []
   \<and> map_option inFlight (step (Message (Stop None None None)) transcribing) = Some True
   \<and> deferred (onMessage (Stop None None None) transcribing) = [StopHandler]
   \<and> map_option buffered
       (step (Messages [Stop None None None, Audio (Some (chunk 10)) None None,
                        Stop None None None]) (connection ''a'')) = Some []
   \<and> map_option inFlight
       (step (Messages [Stop None None None, Audio (Some (chunk 10)) None None,
                        Stop None None None]) (connection ''a'')) = Some True"
proof -
  have parked: "step (Message (Stop None None None))
                  (the (step (Message (Audio (Some (chunk 10)) None None))
                          (connection ''a''))) =
                Some stopping"
    by (simp add: stopping_def transcriptionRequest_def handler_defs)
  have failed: "step (TranscribeThrows 0) stopping =
                  Some (runMicrotasks (awaitResult StopHandler
                          (afterThrow 0 (the (map_of (tasks stopping) 0)) stopping)))"
    by (simp add: stopping_def step_def connection_def)
  have skipped: "step (Message (Stop None None None)) transcribing =
                   Some (runMicrotasks (onMessage (Stop None None None) transcribing))"
    by (simp add: transcribing_def connection_def step_def)
  have together: "step (Messages ([] @ Stop None None None #
                          [Audio (Some (chunk 10)) None None, Stop None None None]))
                    (connection ''a'') =
                  Some (runMicrotasks
                    (dispatch [Stop None None None, Audio (Some (chunk 10)) None None,
                               Stop None None None] (connection ''a'')))"
    by (simp add: connection_def step_def)
  show ?thesis
    using stop_resets_session [OF parked, of None None None]
          stop_resets_session [OF failed, of _ _ _ 0 "the (map_of (tasks stopping) 0)"]
          stop_resets_session [OF skipped, of None None None _ _ _ _ transcribing]
          stop_resets_session [OF together, of None None None _ _ "[]"
             "[Audio (Some (chunk 10)) None None, Stop None None None]"]
          reach_stopping reach_transcribing
    by (simp add: stopping_def transcribing_def firstInvocation_def handler_defs
          buffered_def lastEmitted_def inFlight_def)
qed

subsection \<open>The buffer across non-final invocations\<close>

lemma resume_TimerCallback_buffered: "buffered (resume TimerCallback s) = buffered s"
  by (simp add: buffered_def scheduleProcessing_def setTimeout_def)

lemma awaitResult_TimerCallback_buffered:
  "buffered (awaitResult TimerCallback cs) = buffered (snd cs)
   \<and> set (deferred (awaitResult TimerCallback cs)) \<subseteq>
       insert TimerCallback (set (deferred (snd cs)))"
  by (auto simp: buffered_def awaitResult_fields)

lemma timer_turn_buffered:
  assumes "deferred s = []" and "set (deferred x) \<subseteq> insert TimerCallback (set (deferred s))"
  shows "buffered (runMicrotasks x) = buffered x"
proof -
  have "StopHandler \<notin> set (deferred x)"
    using assms by auto
  then show ?thesis
    by (simp add: runMicrotasks_session)
qed

lemma nonfinal_segments_buffered:
  "\<not> isFinal v \<Longrightarrow> buffered (snd (afterTranscribe tid v r s)) = buffered s"
  "\<not> isFinal v \<Longrightarrow> buffered (snd (afterTranslate tid v nt c s)) = buffered s"
  "buffered (snd (afterThrow tid v s)) = buffered s"
  by (simp_all add: handler_defs buffered_def)

lemma timerCallback_buffered_calls:
  "buffered (timerCallback t s) = buffered s
   \<and> calls (timerCallback t s) =
       (if buffered s \<noteq> [] \<and> \<not> inFlight s \<and> 4000 \<le> length (concat (buffered s))
        then calls s @ [transcriptionRequest (buffered s) (sourceLanguage (sessionData s))]
        else calls s)"
  by (simp add: handler_defs buffered_def inFlight_def transcriptionRequest_def)

lemma timerCallback_deferred:
  "set (deferred (timerCallback t s)) \<subseteq> insert TimerCallback (set (deferred s))"
  by (auto simp: timerCallback_def Let_def awaitResult_fields segments_deferred
        clearTimeout_def)

text \<open>
  Claim C4, amended. A non-final invocation that passes the minimum-size threshold
  requests the transcription of the concatenation of the session's \<open>audioChunks\<close>
  and leaves the sequence as it is: neither the timer callback that starts it nor
  any way it completes (result, unchanged text, failure) clears the buffer, so the
  next non-final invocation transcribes the accumulated audio again. The buffer is
  emptied by a clear message and by a stop message, at once or when its final
  invocation completes.
\<close>

theorem nonfinal_invocation_keeps_buffer:
  assumes "step e s = Some s'"
  shows "(e = TimerFires t \<longrightarrow>
            buffered s' = buffered s \<and>
            calls s' =
              (if buffered s \<noteq> [] \<and> \<not> inFlight s \<and> 4000 \<le> length (concat (buffered s))
               then calls s @
                 [transcriptionRequest (buffered s) (sourceLanguage (sessionData s))]
               else calls s))
       \<and> (answered e = Some tid \<and> map_of (tasks s) tid = Some v
            \<and> \<not> isFinal v \<and> awaitedBy v = TimerCallback \<longrightarrow> buffered s' = buffered s)
       \<and> (e = Message Clear \<longrightarrow> buffered s' = [])
       \<and> (e = Message (Stop a src tgt) \<and> tasks s' = tasks s \<longrightarrow> buffered s' = [])
       \<and> (answered e = Some tid \<and> map_of (tasks s) tid = Some v
            \<and> awaitedBy v = StopHandler \<and> map_of (tasks s') tid = None \<longrightarrow>
            buffered s' = [])"
proof -
  from assms obtain x where idle: "deferred s = []" and x: "handle e s = Some x"
    and s': "s' = runMicrotasks x"
    using step_SomeD by blast
  have fire: "e = TimerFires t \<longrightarrow>
            buffered s' = buffered s \<and>
            calls s' =
              (if buffered s \<noteq> [] \<and> \<not> inFlight s \<and> 4000 \<le> length (concat (buffered s))
               then calls s @
                 [transcriptionRequest (buffered s) (sourceLanguage (sessionData s))]
               else calls s)"
  proof
    assume "e = TimerFires t"
    with x have "x = timerCallback t s"
      by (auto split: if_splits)
    then show "buffered s' = buffered s \<and>
            calls s' =
              (if buffered s \<noteq> [] \<and> \<not> inFlight s \<and> 4000 \<le> length (concat (buffered s))
               then calls s @
                 [transcriptionRequest (buffered s) (sourceLanguage (sessionData s))]
               else calls s)"
      using timerCallback_buffered_calls [of t s] s'
            timer_turn_buffered [OF idle timerCallback_deferred, of t]
      by (simp add: runMicrotasks_fields)
  qed
  have answer: "answered e = Some tid \<and> map_of (tasks s) tid = Some v
            \<and> \<not> isFinal v \<and> awaitedBy v = TimerCallback \<longrightarrow> buffered s' = buffered s"
  proof
    assume h: "answered e = Some tid \<and> map_of (tasks s) tid = Some v
            \<and> \<not> isFinal v \<and> awaitedBy v = TimerCallback"
    have kept: "buffered (awaitResult TimerCallback cs) = buffered (snd cs)" for cs
      by (simp add: buffered_def awaitResult_fields)
    have "buffered x = buffered s
        \<and> set (deferred x) \<subseteq> insert TimerCallback (set (deferred s))"
      using h x
      by (cases e)
         (auto simp: kept awaitResult_fields nonfinal_segments_buffered segments_deferred
               split: phase.splits if_splits)
    then show "buffered s' = buffered s"
      using timer_turn_buffered [OF idle, of x] s' by simp
  qed
  have clear: "e = Message Clear \<longrightarrow> buffered s' = []"
  proof
    assume "e = Message Clear"
    with x have "x = onMessage Clear s"
      by (auto split: if_splits)
    then have "buffered x = []"
      by (simp add: buffered_def cancelTimer_fields)
    then show "buffered s' = []"
      using s' by (simp add: runMicrotasks_session)
  qed
  have stop: "e = Message (Stop a src tgt) \<and> tasks s' = tasks s \<longrightarrow> buffered s' = []"
    using stop_handled_at_once [OF assms, of a src tgt] by blast
  have final: "answered e = Some tid \<and> map_of (tasks s) tid = Some v
            \<and> awaitedBy v = StopHandler \<and> map_of (tasks s') tid = None \<longrightarrow>
            buffered s' = []"
    using stop_handled_later [OF assms, of tid v] by blast
  from fire answer clear stop final show ?thesis
    by blast
qed

text \<open>
  One fragment of 4000 bytes: after the first non-final invocation has completed the
  fragment is still buffered, and the next timer fires a second transcription request
  over the same bytes.
\<close>

theorem buffer_transcribed_twice_counterexample:
  "map_option buffered
     (run [Message (Audio (Some (chunk 4000)) None None), TimerFires 0,
           TranscribeReturns 0 None] (connection ''a'')) = Some [chunk 4000]
   \<and> map_option calls
     (run [Message (Audio (Some (chunk 4000)) None None), TimerFires 0,
           TranscribeReturns 0 None, TimerFires 1] (connection ''a'')) =
     Some [transcriptionRequest [chunk 4000] ''zh'', transcriptionRequest [chunk 4000] ''zh'']"
  by (simp add: handler_defs buffered_def transcriptionRequest_def chunk_def)

text \<open>
  The timer fires over 4000 buffered bytes and the transcription comes back empty: the
  bytes stay buffered. A clear, a stop, and the end of a stop's final invocation empty
  the buffer.
\<close>

theorem nonfinal_invocation_keeps_buffer_witness:
  "run [Message (Audio (Some (chunk 4000)) None None), TimerFires 0] (connection ''a'') =
     Some transcribing
   \<and> buffered transcribing = [chunk 4000]
   \<and> calls transcribing = [transcriptionRequest [chunk 4000] ''zh'']
   \<and> map_option buffered (step (TranscribeReturns 0 None) transcribing) = Some [chunk 4000]
   \<and> map_option buffered (step (Message Clear) transcribing) = Some []
   \<and> map_option buffered (step (Message (Stop None None None)) transcribing) = Some []
   \<and> map_option buffered (step (TranscribeThrows 0) stopping) = Some []"
proof -
  have fired: "step (TimerFires 0)
                 (the (step (Message (Audio (Some (chunk 4000)) None None))
                         (connection ''a''))) =
               Some transcribing"
    by (simp add: transcribing_def firstInvocation_def transcriptionRequest_def
          handler_defs chunk_def)
  have returned: "step (TranscribeReturns 0 None) transcribing =
                    Some (runMicrotasks (awaitResult TimerCallback
                            (afterTranscribe 0 firstInvocation None transcribing)))"
    by (simp add: transcribing_def firstInvocation_def step_def connection_def)
  have cleared: "step (Message Clear) transcribing =
                   Some (runMicrotasks (onMessage Clear transcribing))"
    by (simp add: transcribing_def connection_def step_def)
  have skipped: "step (Message (Stop None None None)) transcribing =
                   Some (runMicrotasks (onMessage (Stop None None None) transcribing))"
    by (simp add: transcribing_def connection_def step_def)
  have failed: "step (TranscribeThrows 0) stopping =
                  Some (runMicrotasks (awaitResult StopHandler
                          (afterThrow 0 (the (map_of (tasks stopping) 0)) stopping)))"
    by (simp add: stopping_def step_def connection_def)
  show ?thesis
    using nonfinal_invocation_keeps_buffer [OF fired, of 0]
          nonfinal_invocation_keeps_buffer [OF returned, of _ 0 firstInvocation]
          nonfinal_invocation_keeps_buffer [OF cleared]
          nonfinal_invocation_keeps_buffer [OF skipped, of _ _ _ None None None]
          nonfinal_invocation_keeps_buffer
            [OF failed, of _ 0 "the (map_of (tasks stopping) 0)"]
          reach_transcribing
    by (simp add: stopping_def transcribing_def firstInvocation_def handler_defs
          buffered_def inFlight_def transcriptionRequest_def chunk_def)
qed

subsection \<open>Single flight\<close>

lemma flightInv_cong:
  "tasks s' = tasks s \<Longrightarrow> isProcessing (sessionData s') = isProcessing (sessionData s) \<Longrightarrow>
   flightInv s' = flightInv s"
  by (simp add: flightInv_def)

lemma flightInv_scheduleProcessing: "flightInv (scheduleProcessing s) = flightInv s"
  by (rule flightInv_cong) (simp_all add: scheduleProcessing_def setTimeout_def)

lemma flightInv_resume: "flightInv (resume k s) = flightInv s"
  by (cases k) (simp_all add: flightInv_scheduleProcessing, simp add: flightInv_def)

lemma flightInv_cancelTimer: "flightInv (cancelTimer s) = flightInv s"
  by (rule flightInv_cong) (simp_all add: cancelTimer_fields)

lemma flightInv_processAudioStream:
  "flightInv s \<Longrightarrow> flightInv (snd (processAudioStream final k s))"
  by (auto simp: flightInv_def processAudioStream_def Let_def)

lemma flightInv_awaitResult: "flightInv (snd cs) \<Longrightarrow> flightInv (awaitResult k cs)"
  by (simp add: flightInv_def awaitResult_fields)

lemma flightInv_resumeAll: "flightInv (resumeAll ks s) = flightInv s"
  by (induction ks arbitrary: s) (simp_all add: flightInv_resume del: resume.simps)

lemma flightInv_runMicrotasks: "flightInv (runMicrotasks s) = flightInv s"
  by (simp add: runMicrotasks_def flightInv_resumeAll) (simp add: flightInv_def)

lemma sole_task_dropped:
  "length xs = 1 \<Longrightarrow> map_of xs tid = Some v \<Longrightarrow> filter (\<lambda>p. fst p \<noteq> tid) xs = []"
  by (cases xs) (auto split: if_splits)

lemma flightInv_finallyBlock:
  "flightInv s \<Longrightarrow> map_of (tasks s) tid = Some v \<Longrightarrow>
   tasks s' = tasks s \<Longrightarrow> flightInv (finallyBlock tid s')"
  by (auto simp: flightInv_def finallyBlock_def sole_task_dropped)

lemma flightInv_afterTranscribe:
  "flightInv s \<Longrightarrow> map_of (tasks s) tid = Some v \<Longrightarrow>
   flightInv (snd (afterTranscribe tid v r s))"
  unfolding afterTranscribe_def Let_def
  by (auto intro: flightInv_finallyBlock simp: finalReset_def) (auto simp: flightInv_def)

lemma flightInv_afterTranslate:
  "flightInv s \<Longrightarrow> map_of (tasks s) tid = Some v \<Longrightarrow>
   flightInv (snd (afterTranslate tid v nt c s))"
  unfolding afterTranslate_def Let_def
  by (auto intro: flightInv_finallyBlock simp: finalReset_def)

lemma flightInv_afterThrow:
  "flightInv s \<Longrightarrow> map_of (tasks s) tid = Some v \<Longrightarrow> flightInv (snd (afterThrow tid v s))"
  unfolding afterThrow_def
  by (auto intro: flightInv_finallyBlock simp: catchBlock_def)

lemma flightInv_onMessage:
  assumes "flightInv s" and "m = Clear \<longrightarrow> tasks s = []"
  shows "flightInv (onMessage m s)"
proof (cases m)
  case (Audio a src tgt)
  show ?thesis
  proof (cases a)
    case None
    with Audio assms show ?thesis by simp
  next
    case (Some b)
    with Audio assms show ?thesis
      by (auto simp: Let_def flightInv_scheduleProcessing) (auto simp: flightInv_def)
  qed
next
  case (Config src tgt)
  with assms show ?thesis by (auto simp: flightInv_def)
next
  case (Stop a src tgt)
  with assms show ?thesis
    by (simp add: flightInv_awaitResult flightInv_processAudioStream flightInv_cancelTimer)
next
  case Clear
  with assms show ?thesis
    by (simp add: flightInv_cancelTimer) (simp add: flightInv_def)
qed (use assms in simp_all)

lemma flightInv_timerCallback: "flightInv s \<Longrightarrow> flightInv (timerCallback t s)"
proof -
  assume inv: "flightInv s"
  let ?s2 = "(clearTimeout t s)\<lparr>sessionData :=
               (sessionData (clearTimeout t s))\<lparr>processingTimer := None\<rparr>\<rparr>"
  have "flightInv ?s2"
    using inv by (simp add: flightInv_def clearTimeout_def)
  then show ?thesis
    by (simp add: timerCallback_def Let_def flightInv_awaitResult flightInv_processAudioStream)
qed

lemma flightInv_dispatch:
  "flightInv s \<Longrightarrow> clearsIdle ms s \<Longrightarrow> flightInv (dispatch ms s)"
proof (induction ms arbitrary: s)
  case Nil
  then show ?case by simp
next
  case (Cons m ms)
  have "flightInv (onMessage m s)"
    using Cons.prems by (intro flightInv_onMessage) simp_all
  then show ?case
    using Cons.IH [of "onMessage m s"] Cons.prems(2) by simp
qed

lemma flightInv_handle:
  assumes "flightInv s" and "handle e s = Some s'" and "clearIdle e s"
  shows "flightInv s'"
proof (cases e)
  case (Message m)
  with assms show ?thesis by (auto simp: flightInv_onMessage split: if_splits)
next
  case (Messages ms)
  with assms show ?thesis by (auto simp: flightInv_dispatch split: if_splits)
next
  case (TimerFires t)
  with assms show ?thesis by (auto simp: flightInv_timerCallback split: if_splits)
next
  case (TranscribeReturns tid r)
  with assms show ?thesis
    by (auto simp: flightInv_awaitResult flightInv_afterTranscribe
             split: option.splits phase.splits)
next
  case (TranscribeThrows tid)
  with assms show ?thesis
    by (auto simp: flightInv_awaitResult flightInv_afterThrow split: option.splits phase.splits)
next
  case (TranslateReturns tid c)
  with assms show ?thesis
    by (auto simp: flightInv_awaitResult flightInv_afterTranslate
             split: option.splits phase.splits)
next
  case (TranslateThrows tid)
  with assms show ?thesis
    by (auto simp: flightInv_awaitResult flightInv_afterThrow split: option.splits phase.splits)
next
  case Close
  with assms show ?thesis
    by (auto simp: flightInv_def onClose_def clearTimeout_def Let_def
             split: if_splits option.splits)
qed

lemma flightInv_step:
  assumes "flightInv s" and "step e s = Some s'" and "clearIdle e s"
  shows "flightInv s'"
  using assms step_SomeD [of e s s'] flightInv_handle flightInv_runMicrotasks by blast

lemma flightInv_run:
  "flightInv s \<Longrightarrow> clearsWhileIdle evs s \<Longrightarrow> run evs s = Some s' \<Longrightarrow> flightInv s'"
proof (induction evs arbitrary: s)
  case Nil
  then show ?case by simp
next
  case (Cons e es)
  from Cons.prems obtain s1 where s1: "step e s = Some s1" and rest: "run es s1 = Some s'"
    by (auto split: option.splits)
  from Cons.prems s1 have idle: "clearIdle e s"
    and later: "clearsWhileIdle es s1"
    by auto
  have "flightInv s1"
    using Cons.prems(1) s1 idle by (rule flightInv_step)
  then show ?case
    using later rest by (rule Cons.IH)
qed

text \<open>
  Claim C1, amended. In every state reached from a fresh connection by a run in which
  no clear message is handled while an invocation is in flight, at most one invocation
  is active, and while one is active \<open>isProcessing\<close> is true. In such a state an
  audio message that arrives while \<open>isProcessing\<close> is true starts no invocation and
  arms no timer, and a stop message that arrives then starts no invocation either.
\<close>

theorem single_flight:
  assumes "run evs (connection sid) = Some s" and "clearsWhileIdle evs (connection sid)"
  shows "activeInvocations s \<le> 1
       \<and> (activeInvocations s = 1 \<longrightarrow> inFlight s)
       \<and> (inFlight s \<longrightarrow>
            tasks (onMessage (Audio a src tgt) s) = tasks s
            \<and> timers (onMessage (Audio a src tgt) s) = timers s)
       \<and> (inFlight s \<longrightarrow> tasks (onMessage (Stop a src tgt) s) = tasks s)"
proof -
  have "flightInv (connection sid)"
    by (simp add: flightInv_def connection_def)
  then have "flightInv s"
    using assms(2,1) by (rule flightInv_run)
  then have "activeInvocations s \<le> 1 \<and> (activeInvocations s = 1 \<longrightarrow> inFlight s)"
    by (auto simp: flightInv_def activeInvocations_def inFlight_def)
  moreover have "inFlight s \<longrightarrow>
            tasks (onMessage (Audio a src tgt) s) = tasks s
            \<and> timers (onMessage (Audio a src tgt) s) = timers s"
    by (cases a) (simp_all add: inFlight_def Let_def)
  moreover have "inFlight s \<longrightarrow> tasks (onMessage (Stop a src tgt) s) = tasks s"
    by (simp add: inFlight_def processAudioStream_final cancelTimer_fields)
  ultimately show ?thesis
    by blast
qed

text \<open>
  A clear message while the first invocation awaits the Gateway resets
  \<open>isProcessing\<close>; the next audio message arms the timer again, and when it fires a
  second invocation passes the guard while the first is still active.
\<close>

theorem clear_in_flight_counterexample:
  "map_option activeInvocations
     (run [Message (Audio (Some (chunk 4000)) None None), TimerFires 0, Message Clear,
           Message (Audio (Some (chunk 4000)) None None), TimerFires 1]
        (connection ''a'')) = Some 2"
  by (simp add: handler_defs activeInvocations_def chunk_def)

text \<open>
  A clear while idle, then an invocation, and an audio and a stop message while it is
  in flight: one invocation is active.
\<close>

theorem single_flight_witness:
  "clearsWhileIdle
     [Message (Audio (Some (chunk 4000)) None None), Message Clear,
           Message (Audio (Some (chunk 4000)) None None), TimerFires 1,
           Message (Audio (Some (chunk 100)) None None),
           Message (Stop None None None)] (connection ''a'')
   \<and> map_option activeInvocations
     (run [Message (Audio (Some (chunk 4000)) None None), Message Clear,
           Message (Audio (Some (chunk 4000)) None None), TimerFires 1,
           Message (Audio (Some (chunk 100)) None None),
           Message (Stop None None None)] (connection ''a'')) = Some 1
   \<and> map_option inFlight
     (run [Message (Audio (Some (chunk 4000)) None None), Message Clear,
           Message (Audio (Some (chunk 4000)) None None), TimerFires 1,
           Message (Audio (Some (chunk 100)) None None),
           Message (Stop None None None)] (connection ''a'')) = Some True"
  using single_flight
    [of "[Message (Audio (Some (chunk 4000)) None None), Message Clear,
           Message (Audio (Some (chunk 4000)) None None), TimerFires 1,
           Message (Audio (Some (chunk 100)) None None),
           Message (Stop None None None)]" "''a''"
        "the (run [Message (Audio (Some (chunk 4000)) None None), Message Clear,
           Message (Audio (Some (chunk 4000)) None None), TimerFires 1,
           Message (Audio (Some (chunk 100)) None None),
           Message (Stop None None None)] (connection ''a''))" None None None]
  by (simp add: handler_defs activeInvocations_def inFlight_def chunk_def)

subsection \<open>When lastTranscript changes\<close>

lemma textInv_cong:
  "tasks s' = tasks s \<Longrightarrow> sent s' = sent s \<Longrightarrow> textInv s' = textInv s"
  by (simp add: textInv_def)

lemma textInv_resume: "textInv (resume k s) = textInv s"
  by (cases k) (simp_all add: textInv_def scheduleProcessing_def setTimeout_def)

lemma textInv_awaitResult: "textInv (snd cs) \<Longrightarrow> textInv (awaitResult k cs)"
  by (simp add: textInv_def awaitResult_fields)

lemma textInv_resumeAll: "textInv (resumeAll ks s) = textInv s"
  by (induction ks arbitrary: s) (simp_all add: textInv_resume del: resume.simps)

lemma textInv_runMicrotasks: "textInv (runMicrotasks s) = textInv s"
  by (simp add: runMicrotasks_def textInv_resumeAll) (simp add: textInv_def)

lemma textInv_cancelTimer: "textInv (cancelTimer s) = textInv s"
  by (rule textInv_cong) (simp_all add: cancelTimer_fields)

lemma textInv_processAudioStream:
  "textInv s \<Longrightarrow> textInv (snd (processAudioStream final k s))"
  by (auto simp: textInv_def processAudioStream_def Let_def)

lemma textInv_finallyBlock: "textInv s \<Longrightarrow> textInv (finallyBlock tid s)"
  by (auto simp: textInv_def finallyBlock_def)

lemma textInv_finalReset: "textInv (finalReset v s) = textInv s"
  by (rule textInv_cong) (simp_all add: finalReset_def)

lemma textInv_afterTranscribe:
  "textInv s \<Longrightarrow> textInv (snd (afterTranscribe tid v r s))"
  unfolding afterTranscribe_def Let_def
  by (auto simp: textInv_finallyBlock textInv_finalReset) (auto simp: textInv_def)

lemma awaited_text_nonempty:
  "textInv s \<Longrightarrow> map_of (tasks s) tid = Some v \<Longrightarrow> waiting v = AwaitTranslate t \<Longrightarrow> t \<noteq> []"
  by (auto simp: textInv_def dest!: map_of_SomeD)

lemma textInv_afterTranslate:
  assumes "textInv s" and "map_of (tasks s) tid = Some v" and "waiting v = AwaitTranslate t"
  shows "textInv (snd (afterTranslate tid v t c s))"
proof -
  have "t \<noteq> []"
    using assms by (rule awaited_text_nonempty)
  then have "textInv (s\<lparr>sessionData := (sessionData s)\<lparr>lastTranslation := orElse c []\<rparr>,
                 sent := sent s @ [Transcription t (orElse c []) (isFinal v)]\<rparr>)"
    using assms(1) by (auto simp: textInv_def)
  then show ?thesis
    by (simp add: afterTranslate_def Let_def textInv_finallyBlock textInv_finalReset)
qed

lemma textInv_afterThrow: "textInv s \<Longrightarrow> textInv (snd (afterThrow tid v s))"
  unfolding afterThrow_def snd_conv
  by (rule textInv_finallyBlock) (auto simp: textInv_def catchBlock_def)

lemma textInv_onMessage: "textInv s \<Longrightarrow> textInv (onMessage m s)"
proof (cases m)
  case (Audio a src tgt)
  assume "textInv s"
  then show ?thesis
    using Audio
    by (cases a) (auto simp: textInv_def Let_def scheduleProcessing_def setTimeout_def)
next
  case (Stop a src tgt)
  assume "textInv s"
  then show ?thesis
    using Stop by (simp add: textInv_awaitResult textInv_processAudioStream textInv_cancelTimer)
next
  case Clear
  assume "textInv s"
  then show ?thesis
    using Clear by (simp add: textInv_cancelTimer) (simp add: textInv_def)
qed (auto simp: textInv_def)

lemma textInv_timerCallback: "textInv s \<Longrightarrow> textInv (timerCallback t s)"
proof -
  assume inv: "textInv s"
  let ?s2 = "(clearTimeout t s)\<lparr>sessionData :=
               (sessionData (clearTimeout t s))\<lparr>processingTimer := None\<rparr>\<rparr>"
  have "textInv ?s2"
    using inv by (simp add: textInv_def clearTimeout_def)
  then show ?thesis
    by (simp add: timerCallback_def Let_def textInv_awaitResult textInv_processAudioStream)
qed

lemma textInv_dispatch: "textInv s \<Longrightarrow> textInv (dispatch ms s)"
  by (induction ms arbitrary: s) (simp_all add: textInv_onMessage del: onMessage.simps)

lemma textInv_handle:
  assumes "textInv s" and "handle e s = Some s'"
  shows "textInv s'"
proof (cases e)
  case (Message m)
  with assms show ?thesis by (auto simp: textInv_onMessage split: if_splits)
next
  case (Messages ms)
  with assms show ?thesis by (auto simp: textInv_dispatch split: if_splits)
next
  case (TimerFires t)
  with assms show ?thesis by (auto simp: textInv_timerCallback split: if_splits)
next
  case (TranscribeReturns tid r)
  with assms show ?thesis
    by (auto simp: textInv_awaitResult textInv_afterTranscribe
             split: option.splits phase.splits)
next
  case (TranscribeThrows tid)
  with assms show ?thesis
    by (auto simp: textInv_awaitResult textInv_afterThrow split: option.splits phase.splits)
next
  case (TranslateReturns tid c)
  with assms show ?thesis
    by (auto simp: textInv_awaitResult textInv_afterTranslate
             split: option.splits phase.splits)
next
  case (TranslateThrows tid)
  with assms show ?thesis
    by (auto simp: textInv_awaitResult textInv_afterThrow split: option.splits phase.splits)
next
  case Close
  with assms show ?thesis
    by (auto simp: textInv_def onClose_def clearTimeout_def Let_def
             split: if_splits option.splits)
qed

lemma textInv_step:
  assumes "textInv s" and "step e s = Some s'"
  shows "textInv s'"
  using assms step_SomeD [of e s s'] textInv_handle textInv_runMicrotasks by blast

lemma textInv_run: "textInv s \<Longrightarrow> run evs s = Some s' \<Longrightarrow> textInv s'"
proof (induction evs arbitrary: s)
  case Nil
  then show ?case by simp
next
  case (Cons e es)
  then show ?case
    by (auto split: option.splits dest: textInv_step)
qed

text \<open>
  Claim C2, amended. For an invocation parked in a reachable state: when its
  transcription request returns a text that is non-empty and differs from the current
  \<open>lastTranscript\<close>, \<open>lastTranscript\<close> is set to that text at once, before the
  translation is requested and with nothing sent yet; otherwise nothing is sent, no
  translation is requested, and a non-final invocation leaves \<open>lastTranscript\<close> and
  \<open>lastTranslation\<close> as they are (a final one blanks them). A transcription event
  is sent only when the translation request then returns; its source text is the
  non-empty text the frame kept, and \<open>lastTranslation\<close> is set with it. When either
  request fails, one error event is sent, \<open>isProcessing\<close> is released, and the
  failure path changes neither field.
\<close>

theorem lastTranscript_update:
  assumes "run evs (connection sid) = Some s" and "map_of (tasks s) tid = Some v"
  shows "(orElse r [] \<noteq> [] \<and> orElse r [] \<noteq> lastTranscript (sessionData s) \<longrightarrow>
            fst (afterTranscribe tid v r s) = Suspended
            \<and> lastEmitted (snd (afterTranscribe tid v r s)) =
                (orElse r [], lastTranslation (sessionData s))
            \<and> sent (snd (afterTranscribe tid v r s)) = sent s
            \<and> map_of (tasks (snd (afterTranscribe tid v r s))) tid =
                Some (v\<lparr>waiting := AwaitTranslate (orElse r [])\<rparr>))
       \<and> (orElse r [] = [] \<or> orElse r [] = lastTranscript (sessionData s) \<longrightarrow>
            fst (afterTranscribe tid v r s) = Returned
            \<and> sent (snd (afterTranscribe tid v r s)) = sent s
            \<and> calls (snd (afterTranscribe tid v r s)) = calls s
            \<and> lastEmitted (snd (afterTranscribe tid v r s)) =
                (if isFinal v then ([], []) else lastEmitted s))
       \<and> (waiting v = AwaitTranslate t \<longrightarrow>
            t \<noteq> []
            \<and> sent (snd (afterTranslate tid v t c s)) =
                sent s @ [Transcription t (orElse c []) (isFinal v)]
            \<and> lastEmitted (snd (afterTranslate tid v t c s)) =
                (if isFinal v then ([], [])
                 else (lastTranscript (sessionData s), orElse c [])))
       \<and> sent (snd (afterThrow tid v s)) = sent s @ [ErrorEvent ''Transcription failed'']
       \<and> lastEmitted (snd (afterThrow tid v s)) = lastEmitted s
       \<and> \<not> inFlight (snd (afterThrow tid v s))"
proof -
  have "textInv (connection sid)"
    by (simp add: textInv_def connection_def)
  then have "textInv s"
    using assms(1) by (rule textInv_run)
  then have nonempty: "waiting v = AwaitTranslate t \<longrightarrow> t \<noteq> []"
    using assms(2) awaited_text_nonempty by blast
  have fresh: "orElse r [] \<noteq> [] \<and> orElse r [] \<noteq> lastTranscript (sessionData s) \<longrightarrow>
            fst (afterTranscribe tid v r s) = Suspended
            \<and> lastEmitted (snd (afterTranscribe tid v r s)) =
                (orElse r [], lastTranslation (sessionData s))
            \<and> sent (snd (afterTranscribe tid v r s)) = sent s
            \<and> map_of (tasks (snd (afterTranscribe tid v r s))) tid =
                Some (v\<lparr>waiting := AwaitTranslate (orElse r [])\<rparr>)"
    using assms(2) by (simp add: afterTranscribe_def Let_def lastEmitted_def map_of_map_same)
  have stale: "orElse r [] = [] \<or> orElse r [] = lastTranscript (sessionData s) \<longrightarrow>
            fst (afterTranscribe tid v r s) = Returned
            \<and> sent (snd (afterTranscribe tid v r s)) = sent s
            \<and> calls (snd (afterTranscribe tid v r s)) = calls s
            \<and> lastEmitted (snd (afterTranscribe tid v r s)) =
                (if isFinal v then ([], []) else lastEmitted s)"
    by (auto simp: afterTranscribe_def Let_def lastEmitted_def finallyBlock_def finalReset_def)
  have emit: "sent (snd (afterTranslate tid v t c s)) =
                sent s @ [Transcription t (orElse c []) (isFinal v)]
            \<and> lastEmitted (snd (afterTranslate tid v t c s)) =
                (if isFinal v then ([], [])
                 else (lastTranscript (sessionData s), orElse c []))"
    by (simp add: afterTranslate_def Let_def lastEmitted_def finallyBlock_def finalReset_def)
  have fail: "sent (snd (afterThrow tid v s)) = sent s @ [ErrorEvent ''Transcription failed'']
       \<and> lastEmitted (snd (afterThrow tid v s)) = lastEmitted s
       \<and> \<not> inFlight (snd (afterThrow tid v s))"
    by (simp add: afterThrow_def lastEmitted_def inFlight_def finallyBlock_def catchBlock_def)
  from nonempty fresh stale emit fail show ?thesis
    by blast
qed

text \<open>
  The transcription returns \<open>hola\<close> and the translation request fails: an error
  event is sent, no transcription event is, and \<open>lastTranscript\<close> has changed
  from empty to \<open>hola\<close>.
\<close>

theorem translate_failure_counterexample:
  "map_option sent
     (run [Message (Audio (Some (chunk 4000)) None None), TimerFires 0,
           TranscribeReturns 0 (Some ''hola''), TranslateThrows 0] (connection ''a'')) =
     Some [Connected ''a'', ErrorEvent ''Transcription failed'']
   \<and> map_option lastEmitted
     (run [Message (Audio (Some (chunk 4000)) None None), TimerFires 0,
           TranscribeReturns 0 (Some ''hola''), TranslateThrows 0] (connection ''a'')) =
     Some (''hola'', [])"
  by (simp add: handler_defs lastEmitted_def chunk_def)

text \<open>
  The first invocation over 4000 bytes, at its transcription and at its translation.
\<close>

theorem lastTranscript_update_witness:
  "run [Message (Audio (Some (chunk 4000)) None None), TimerFires 0] (connection ''a'') =
     Some transcribing
   \<and> map_of (tasks transcribing) 0 = Some firstInvocation
   \<and> lastEmitted (snd (afterTranscribe 0 firstInvocation (Some ''hola'') transcribing)) =
       (''hola'', [])
   \<and> sent (snd (afterTranscribe 0 firstInvocation (Some ''hola'') transcribing)) =
       [Connected ''a'']
   \<and> fst (afterTranscribe 0 firstInvocation None transcribing) = Returned
   \<and> lastEmitted (snd (afterTranscribe 0 firstInvocation None transcribing)) = ([], [])
   \<and> sent (snd (afterThrow 0 firstInvocation transcribing)) =
       [Connected ''a'', ErrorEvent ''Transcription failed'']
   \<and> lastEmitted (snd (afterThrow 0 firstInvocation transcribing)) = ([], [])
   \<and> run [Message (Audio (Some (chunk 4000)) None None), TimerFires 0,
           TranscribeReturns 0 (Some ''hola'')] (connection ''a'') = Some translating
   \<and> sent (snd (afterTranslate 0 (firstInvocation\<lparr>waiting := AwaitTranslate ''hola''\<rparr>)
               ''hola'' (Some ''hello'') translating)) =
       [Connected ''a'', Transcription ''hola'' ''hello'' False]
   \<and> lastEmitted (snd (afterTranslate 0 (firstInvocation\<lparr>waiting := AwaitTranslate ''hola''\<rparr>)
               ''hola'' (Some ''hello'') translating)) = (''hola'', ''hello'')"
proof -
  have reach: "run [Message (Audio (Some (chunk 4000)) None None), TimerFires 0]
                 (connection ''a'') = Some transcribing"
    by (simp add: transcribing_def firstInvocation_def transcriptionRequest_def
          handler_defs chunk_def)
  have task: "map_of (tasks transcribing) 0 = Some firstInvocation"
    by (simp add: transcribing_def)
  have start: "sent transcribing = [Connected ''a''] \<and> lastEmitted transcribing = ([], [])
      \<and> lastTranscript (sessionData transcribing) = []
      \<and> lastTranslation (sessionData transcribing) = []
      \<and> \<not> isFinal firstInvocation"
    by (simp add: transcribing_def firstInvocation_def connection_def lastEmitted_def)
  have reach2: "run [Message (Audio (Some (chunk 4000)) None None), TimerFires 0,
           TranscribeReturns 0 (Some ''hola'')] (connection ''a'') = Some translating"
    by (simp add: translating_def transcribing_def firstInvocation_def
          transcriptionRequest_def handler_defs chunk_def)
  have task2: "map_of (tasks translating) 0 =
                 Some (firstInvocation\<lparr>waiting := AwaitTranslate ''hola''\<rparr>)"
    by (simp add: translating_def)
  have start2: "sent translating = [Connected ''a'']
      \<and> lastTranscript (sessionData translating) = ''hola''"
    by (simp add: translating_def transcribing_def connection_def)
  show ?thesis
    using lastTranscript_update [OF reach task, of "Some ''hola''"]
          lastTranscript_update [OF reach task, of None]
          lastTranscript_update [OF reach2 task2, of _ "''hola''" "Some ''hello''"]
          reach task start reach2 start2
    by (simp add: orElse_def firstInvocation_def)
qed

subsection \<open>What a clear abandons\<close>

lemma overChunks_mono: "A \<subseteq> B \<Longrightarrow> overChunks A b \<Longrightarrow> overChunks B b"
  by (auto simp: overChunks_def)

lemma requestOver_mono: "A \<subseteq> B \<Longrightarrow> requestOver A c \<Longrightarrow> requestOver B c"
  by (cases c) (auto intro: overChunks_mono)

lemma afterClear_mono: "A \<subseteq> B \<Longrightarrow> afterClear A n idle s \<Longrightarrow> afterClear B n idle s"
  unfolding afterClear_def
  by (meson overChunks_mono requestOver_mono subset_trans)

lemma afterClear_cong:
  "buffered s' = buffered s \<Longrightarrow> calls s' = calls s \<Longrightarrow> tasks s' = tasks s \<Longrightarrow>
   afterClear A n idle s' = afterClear A n idle s"
  by (simp add: afterClear_def)

lemma afterClear_reset:
  "calls s' = calls s \<Longrightarrow> tasks s' = tasks s \<Longrightarrow> buffered s' = [] \<Longrightarrow>
   afterClear A n idle s \<Longrightarrow> afterClear A n idle s'"
  by (simp add: afterClear_def)

lemma afterClear_scheduleProcessing:
  "afterClear A n idle (scheduleProcessing s) = afterClear A n idle s"
  by (rule afterClear_cong) (simp_all add: scheduleProcessing_def setTimeout_def buffered_def)

lemma afterClear_resume: "afterClear A n idle s \<Longrightarrow> afterClear A n idle (resume k s)"
  by (cases k) (auto simp: afterClear_scheduleProcessing, auto simp: afterClear_def buffered_def)

lemma afterClear_awaitResult:
  "afterClear A n idle (snd cs) \<Longrightarrow> afterClear A n idle (awaitResult k cs)"
  by (simp add: afterClear_def buffered_def awaitResult_fields)

lemma afterClear_resumeAll:
  "afterClear A n idle s \<Longrightarrow> afterClear A n idle (resumeAll ks s)"
  by (induction ks arbitrary: s) (simp_all add: afterClear_resume del: resume.simps)

lemma afterClear_runMicrotasks:
  "afterClear A n idle s \<Longrightarrow> afterClear A n idle (runMicrotasks s)"
  unfolding runMicrotasks_def
  by (rule afterClear_resumeAll) (simp add: afterClear_def buffered_def)

lemma afterClear_cancelTimer: "afterClear A n idle (cancelTimer s) = afterClear A n idle s"
  by (rule afterClear_cong) (simp_all add: cancelTimer_fields buffered_def)

lemma overChunks_buffered: "set (buffered s) \<subseteq> A \<Longrightarrow> overChunks A (concat (buffered s))"
  by (auto simp: overChunks_def)

lemma afterClear_processAudioStream:
  assumes "afterClear A n idle s"
  shows "afterClear A n idle (snd (processAudioStream final k s))"
proof -
  have over: "overChunks A (concat (audioChunks (sessionData s)))"
    using assms overChunks_buffered [of s A] by (simp add: afterClear_def buffered_def)
  show ?thesis
    using assms over
    by (auto simp: afterClear_def buffered_def processAudioStream_def Let_def
             dest: in_set_dropD)
qed

lemma afterClear_finallyBlock:
  "afterClear A n idle s \<Longrightarrow> afterClear A n idle (finallyBlock tid s)"
  by (auto simp: afterClear_def finallyBlock_def buffered_def)

lemma afterClear_finalReset: "afterClear A n idle s \<Longrightarrow> afterClear A n idle (finalReset v s)"
  by (auto simp: afterClear_def finalReset_def buffered_def)

lemma afterClear_catchBlock: "afterClear A n idle (catchBlock s) = afterClear A n idle s"
  by (rule afterClear_cong) (simp_all add: catchBlock_def buffered_def)

lemma frame_over:
  "afterClear A n True s \<Longrightarrow> map_of (tasks s) tid = Some v \<Longrightarrow> overChunks A (combinedAudio v)"
  by (auto simp: afterClear_def dest!: map_of_SomeD)

lemma afterClear_afterTranscribe:
  assumes "afterClear A n idle s" and "map_of (tasks s) tid = Some v"
  shows "afterClear A n idle (snd (afterTranscribe tid v r s))"
proof -
  have "idle \<longrightarrow> overChunks A (combinedAudio v)"
    using assms by (auto simp: afterClear_def dest!: map_of_SomeD)
  then show ?thesis
    using assms(1)
    unfolding afterTranscribe_def Let_def
    by (auto simp: afterClear_finallyBlock afterClear_finalReset)
       (auto simp: afterClear_def buffered_def chatRequest_def dest: in_set_dropD)
qed

lemma afterClear_afterTranslate:
  assumes "afterClear A n idle s"
  shows "afterClear A n idle (snd (afterTranslate tid v t c s))"
proof -
  have "afterClear A n idle
          (s\<lparr>sessionData := (sessionData s)\<lparr>lastTranslation := orElse c []\<rparr>,
             sent := sent s @ [Transcription t (orElse c []) (isFinal v)]\<rparr>)"
    using assms by (simp add: afterClear_def buffered_def)
  then show ?thesis
    by (simp add: afterTranslate_def Let_def afterClear_finallyBlock afterClear_finalReset)
qed

lemma afterClear_afterThrow:
  "afterClear A n idle s \<Longrightarrow> afterClear A n idle (snd (afterThrow tid v s))"
  by (simp add: afterThrow_def afterClear_finallyBlock afterClear_catchBlock)

lemma afterClear_onMessage:
  assumes "afterClear A n idle s"
  shows "afterClear (A \<union> set (audioOf [Message m])) n idle (onMessage m s)"
proof (cases m)
  case (Audio a src tgt)
  show ?thesis
  proof (cases a)
    case None
    with Audio assms show ?thesis by simp
  next
    case (Some b)
    have bigger: "afterClear (insert b A) n idle s"
      using assms by (rule afterClear_mono [rotated]) auto
    have "afterClear (insert b A) n idle
            (s\<lparr>sessionData := (sessionData s)
                 \<lparr>audioChunks := audioChunks (sessionData s) @ [b],
                  sourceLanguage := orElse src ''zh'',
                  targetLanguage := orElse tgt ''en''\<rparr>\<rparr>)"
      using bigger by (auto simp: afterClear_def buffered_def)
    then show ?thesis
      using Audio Some by (simp add: Let_def afterClear_scheduleProcessing)
  qed
next
  case (Config src tgt)
  with assms show ?thesis by (simp add: afterClear_def buffered_def)
next
  case (Stop a src tgt)
  with assms show ?thesis
    by (simp add: afterClear_awaitResult afterClear_processAudioStream afterClear_cancelTimer)
next
  case Clear
  have "afterClear A n idle
          (s\<lparr>sessionData := (sessionData s)
               \<lparr>audioChunks := [], lastTranscript := [], lastTranslation := [],
                isProcessing := False\<rparr>\<rparr>)"
    using assms by (simp add: afterClear_def buffered_def)
  with Clear show ?thesis by (simp add: afterClear_cancelTimer)
qed (use assms in simp_all)

lemma afterClear_timerCallback:
  assumes "afterClear A n idle s"
  shows "afterClear A n idle (timerCallback t s)"
proof -
  let ?s2 = "(clearTimeout t s)\<lparr>sessionData :=
               (sessionData (clearTimeout t s))\<lparr>processingTimer := None\<rparr>\<rparr>"
  have "afterClear A n idle ?s2"
    using assms by (simp add: afterClear_def clearTimeout_def buffered_def)
  then show ?thesis
    by (simp add: timerCallback_def Let_def afterClear_awaitResult afterClear_processAudioStream)
qed

lemma fragments_Cons: "set (fragments (m # ms)) = set (fragments [m]) \<union> set (fragments ms)"
  by (induction "m # ms" rule: fragments.induct) auto

lemma afterClear_dispatch:
  "afterClear A n idle s \<Longrightarrow> afterClear (A \<union> set (fragments ms)) n idle (dispatch ms s)"
proof (induction ms arbitrary: A s)
  case Nil
  then show ?case by simp
next
  case (Cons m ms)
  have "afterClear (A \<union> set (fragments [m])) n idle (onMessage m s)"
    using afterClear_onMessage [OF Cons.prems, of m] by simp
  then have "afterClear (A \<union> set (fragments [m]) \<union> set (fragments ms)) n idle
               (dispatch ms (onMessage m s))"
    by (rule Cons.IH)
  then show ?case
    by (simp add: fragments_Cons [of m ms] Un_assoc)
qed

lemma afterClear_handle:
  assumes "afterClear A n idle s" and "handle e s = Some s'"
  shows "afterClear (A \<union> set (audioOf [e])) n idle s'"
proof (cases e)
  case (Message m)
  with assms show ?thesis
    using afterClear_onMessage [OF assms(1), of m] by (auto split: if_splits)
next
  case (Messages ms)
  with assms show ?thesis
    using afterClear_dispatch [OF assms(1), of ms] by (auto split: if_splits)
next
  case (TimerFires t)
  with assms show ?thesis by (auto simp: afterClear_timerCallback split: if_splits)
next
  case (TranscribeReturns tid r)
  with assms show ?thesis
    by (auto simp: afterClear_awaitResult afterClear_afterTranscribe
             split: option.splits phase.splits)
next
  case (TranscribeThrows tid)
  with assms show ?thesis
    by (auto simp: afterClear_awaitResult afterClear_afterThrow
             split: option.splits phase.splits)
next
  case (TranslateReturns tid c)
  with assms show ?thesis
    by (auto simp: afterClear_awaitResult afterClear_afterTranslate
             split: option.splits phase.splits)
next
  case (TranslateThrows tid)
  with assms show ?thesis
    by (auto simp: afterClear_awaitResult afterClear_afterThrow
             split: option.splits phase.splits)
next
  case Close
  with assms show ?thesis
    by (auto simp: afterClear_def buffered_def onClose_def clearTimeout_def Let_def
             split: if_splits option.splits)
qed

lemma afterClear_step:
  assumes "afterClear A n idle s" and "step e s = Some s'"
  shows "afterClear (A \<union> set (audioOf [e])) n idle s'"
  using assms step_SomeD [of e s s'] afterClear_handle afterClear_runMicrotasks by blast

lemma audioOf_Cons: "set (audioOf (e # es)) = set (audioOf [e]) \<union> set (audioOf es)"
  by (cases e) auto

lemma afterClear_run:
  "afterClear A n idle s \<Longrightarrow> run evs s = Some s' \<Longrightarrow>
   afterClear (A \<union> set (audioOf evs)) n idle s'"
proof (induction evs arbitrary: A s)
  case Nil
  then show ?case by simp
next
  case (Cons e es)
  from Cons.prems obtain s1 where s1: "step e s = Some s1" and rest: "run es s1 = Some s'"
    by (auto split: option.splits)
  have "afterClear (A \<union> set (audioOf [e])) n idle s1"
    using Cons.prems(1) s1 by (rule afterClear_step)
  then have "afterClear (A \<union> set (audioOf [e]) \<union> set (audioOf es)) n idle s'"
    using rest by (rule Cons.IH)
  then show ?case
    by (simp add: audioOf_Cons [of e es] Un_assoc)
qed


lemma sent_awaitResult: "sent (awaitResult k cs) = sent (snd cs)"
  by (simp add: awaitResult_fields)

lemma sent_processAudioStream: "sent (snd (processAudioStream final k s)) = sent s"
  by (simp add: processAudioStream_def Let_def)

lemma sent_onMessage: "sent (onMessage m s) = sent s"
proof (cases m)
  case (Audio a src tgt)
  then show ?thesis
    by (cases a) (simp_all add: Let_def scheduleProcessing_def setTimeout_def)
next
  case (Stop a src tgt)
  then show ?thesis
    by (simp add: sent_awaitResult sent_processAudioStream cancelTimer_fields)
next
  case Clear
  then show ?thesis
    by (simp add: cancelTimer_fields)
qed simp_all

lemma sent_timerCallback: "sent (timerCallback t s) = sent s"
  by (simp add: timerCallback_def Let_def sent_awaitResult sent_processAudioStream
        clearTimeout_def)

lemma sent_onClose: "sent (onClose s) = sent s"
  by (simp add: onClose_def clearTimeout_def Let_def split: option.splits)

lemma sent_dispatch: "sent (dispatch ms s) = sent s"
  by (induction ms arbitrary: s) (simp_all add: sent_onMessage del: onMessage.simps)

lemma sent_only_on_answer:
  assumes "step e s = Some s'" and "sent s' \<noteq> sent s"
  shows "\<exists>tid v. answered e = Some tid \<and> map_of (tasks s) tid = Some v"
proof -
  from assms(1) obtain x where x: "handle e s = Some x" and s': "s' = runMicrotasks x"
    using step_SomeD by blast
  then have "sent x \<noteq> sent s"
    using assms(2) by (simp add: runMicrotasks_fields)
  then show ?thesis
    using x
    by (cases e)
       (auto simp: sent_onMessage sent_dispatch sent_timerCallback sent_onClose
             split: if_splits option.splits)
qed

lemma clear_fields:
  "sent (onMessage Clear s) = sent s \<and> calls (onMessage Clear s) = calls s
   \<and> tasks (onMessage Clear s) = tasks s \<and> buffered (onMessage Clear s) = []
   \<and> lastEmitted (onMessage Clear s) = ([], []) \<and> \<not> inFlight (onMessage Clear s)"
  by (simp add: cancelTimer_fields buffered_def lastEmitted_def inFlight_def)

lemma clear_turn:
  assumes "step (Message Clear) s0 = Some s1"
  shows "sent s1 = sent s0 \<and> calls s1 = calls s0 \<and> tasks s1 = tasks s0 \<and> buffered s1 = []"
proof -
  have "s1 = runMicrotasks (onMessage Clear s0)"
    using assms step_SomeD [of "Message Clear" s0 s1] by (auto split: if_splits)
  then show ?thesis
    using clear_fields [of s0]
    by (simp add: runMicrotasks_fields runMicrotasks_session del: onMessage.simps)
qed

text \<open>
  Claim C8, amended. A clear message sends nothing, requests nothing, empties the
  buffer and leaves the parked invocations parked. Whatever happens afterwards,
  every transcription request made after the clear is over chunks received after it,
  so no invocation over the audio buffered before the clear is started. If no
  invocation was in flight when the clear arrived, then every later step that sends a
  transcription or an error event is the answer to an invocation over chunks received
  after the clear. An invocation already in flight at the clear is not cancelled and
  still sends its event.
\<close>

theorem clear_abandons_buffer:
  assumes "step (Message Clear) s0 = Some s1" and "run evs s1 = Some s2"
  shows "sent s1 = sent s0 \<and> calls s1 = calls s0 \<and> tasks s1 = tasks s0 \<and> buffered s1 = []
       \<and> (\<forall>c \<in> set (drop (length (calls s1)) (calls s2)). requestOver (set (audioOf evs)) c)
       \<and> (tasks s0 = [] \<longrightarrow>
            (\<forall>e s3. step e s2 = Some s3 \<and> sent s3 \<noteq> sent s2 \<longrightarrow>
               (\<exists>tid v. answered e = Some tid \<and> map_of (tasks s2) tid = Some v
                  \<and> overChunks (set (audioOf evs)) (combinedAudio v))))"
proof -
  have fields: "sent s1 = sent s0 \<and> calls s1 = calls s0 \<and> tasks s1 = tasks s0
      \<and> buffered s1 = []"
    using assms(1) by (rule clear_turn)
  then have "afterClear {} (length (calls s1)) (tasks s0 = []) s1"
    by (simp add: afterClear_def)
  then have inv: "afterClear (set (audioOf evs)) (length (calls s1)) (tasks s0 = []) s2"
    using afterClear_run [OF _ assms(2), of "{}"] by simp
  then have requests:
    "\<forall>c \<in> set (drop (length (calls s1)) (calls s2)). requestOver (set (audioOf evs)) c"
    by (simp add: afterClear_def)
  have events: "tasks s0 = [] \<longrightarrow>
            (\<forall>e s3. step e s2 = Some s3 \<and> sent s3 \<noteq> sent s2 \<longrightarrow>
               (\<exists>tid v. answered e = Some tid \<and> map_of (tasks s2) tid = Some v
                  \<and> overChunks (set (audioOf evs)) (combinedAudio v)))"
  proof (intro impI allI)
    fix e s3
    assume idle: "tasks s0 = []" and emit: "step e s2 = Some s3 \<and> sent s3 \<noteq> sent s2"
    then obtain tid v where tv: "answered e = Some tid" "map_of (tasks s2) tid = Some v"
      using sent_only_on_answer by blast
    have "afterClear (set (audioOf evs)) (length (calls s1)) True s2"
      using inv idle by simp
    then have "overChunks (set (audioOf evs)) (combinedAudio v)"
      using tv(2) by (rule frame_over)
    with tv show "\<exists>tid v. answered e = Some tid \<and> map_of (tasks s2) tid = Some v
                  \<and> overChunks (set (audioOf evs)) (combinedAudio v)"
      by blast
  qed
  from fields requests events show ?thesis
    by blast
qed

text \<open>
  The clear arrives while the invocation over the first 4000 bytes awaits the
  Gateway: its transcription event, or its error event, is sent after the clear.
\<close>

theorem clear_in_flight_emits_counterexample:
  "map_option sent
     (run [Message (Audio (Some (chunk 4000)) None None), TimerFires 0, Message Clear,
           TranscribeReturns 0 (Some ''hola''), TranslateReturns 0 (Some ''hello'')]
        (connection ''a'')) =
     Some [Connected ''a'', Transcription ''hola'' ''hello'' False]
   \<and> map_option sent
     (run [Message (Audio (Some (chunk 4000)) None None), TimerFires 0, Message Clear,
           TranscribeThrows 0] (connection ''a'')) =
     Some [Connected ''a'', ErrorEvent ''Transcription failed'']"
  by (simp add: handler_defs chunk_def)


text \<open>
  4000 bytes are buffered and cleared; 5000 more arrive and the timer fires: the only
  transcription request is over the 5000 bytes.
\<close>

theorem clear_abandons_buffer_witness:
  "map_option calls
     (run [Message (Audio (Some (chunk 4000)) None None), Message Clear,
           Message (Audio (Some (chunk 5000)) None None), TimerFires 1]
        (connection ''a'')) = Some [transcriptionRequest [chunk 5000] ''zh'']
   \<and> requestOver
       (set (audioOf [Message (Audio (Some (chunk 5000)) None None), TimerFires 1]))
       (transcriptionRequest [chunk 5000] ''zh'')"
  using clear_abandons_buffer
    [of "the (run [Message (Audio (Some (chunk 4000)) None None)] (connection ''a''))"
        "the (run [Message (Audio (Some (chunk 4000)) None None), Message Clear]
                (connection ''a''))"
        "[Message (Audio (Some (chunk 5000)) None None), TimerFires 1]"
        "the (run [Message (Audio (Some (chunk 4000)) None None), Message Clear,
                   Message (Audio (Some (chunk 5000)) None None), TimerFires 1]
                (connection ''a''))"]
  by (simp add: handler_defs transcriptionRequest_def chunk_def)

end
